theory Spec2Isabelle
  imports Main "HOL-Library.Word"
begin

section \<open>The host clock and calendar (Go package time)\<close>

text \<open>
  A \<^verbatim>\<open>time.Duration\<close> is a 64-bit signed number of nanoseconds. Durations are
  modelled as integers; where the source computes with durations, the result is wrapped to
  64 bits by \<open>int64\<close>, as the machine does.
\<close>

type_synonym Duration = int

definition int64 :: "int \<Rightarrow> int" where
  "int64 x = (x + 2 ^ 63) mod 2 ^ 64 - 2 ^ 63"

definition maxDuration :: Duration where "maxDuration = 2 ^ 63 - 1"
definition minDuration :: Duration where "minDuration = - (2 ^ 63)"

definition second_ns :: Duration where "second_ns = 1000000000"
definition minute_ns :: Duration where "minute_ns = 60 * second_ns"
definition hour_ns :: Duration where "hour_ns = 60 * minute_ns"
definition day_ns :: Duration where "day_ns = 24 * hour_ns"

subsection \<open>The civil calendar\<close>

text \<open>
  The functions of this subsection work on a wall-clock reading, counted in nanoseconds
  from January 1 of year 1, 00:00:00, with no zone involved.
\<close>

definition isLeap :: "int \<Rightarrow> bool" where
  "isLeap year = (year mod 4 = 0 \<and> (year mod 100 \<noteq> 0 \<or> year mod 400 = 0))"

text \<open>Days from January 1 of year 1 to January 1 of the given year.\<close>

definition daysSinceEpoch :: "int \<Rightarrow> int" where
  "daysSinceEpoch year =
     (let y = year - 1 in 365 * y + y div 4 - y div 100 + y div 400)"

text \<open>\<open>daysBefore m\<close> counts the days of a non-leap year before month \<open>m + 1\<close>.\<close>

definition daysBefore :: "int \<Rightarrow> int" where
  "daysBefore m =
     (if m \<le> 0 then 0 else if m = 1 then 31 else if m = 2 then 59
      else if m = 3 then 90 else if m = 4 then 120 else if m = 5 then 151
      else if m = 6 then 181 else if m = 7 then 212 else if m = 8 then 243
      else if m = 9 then 273 else if m = 10 then 304 else if m = 11 then 334
      else 365)"

definition daysIn :: "int \<Rightarrow> int \<Rightarrow> int" where
  "daysIn month year =
     (if month = 2 \<and> isLeap year then 29 else daysBefore month - daysBefore (month - 1))"

text \<open>
  The year and the zero-based day of the year of a day number: whole 400-year, 100-year,
  4-year and 1-year cycles are cut off in turn; the last 100-year cycle of a 400-year
  cycle and the last year of a 4-year cycle are one day longer.
\<close>

definition absDate :: "int \<Rightarrow> int \<times> int" where
  "absDate d =
     (let n400 = d div 146097;
          d1 = d - 146097 * n400;
          c = d1 div 36524;
          n100 = c - c div 4;
          d2 = d1 - 36524 * n100;
          n4 = d2 div 1461;
          d3 = d2 - 1461 * n4;
          q = d3 div 365;
          n1 = q - q div 4;
          yday = d3 - 365 * n1
      in (400 * n400 + 100 * n100 + 4 * n4 + n1 + 1, yday))"

text \<open>The month (1 to 12) and the day of the month of a day of the year.\<close>

definition monthDay :: "bool \<Rightarrow> int \<Rightarrow> int \<times> int" where
  "monthDay leap yday =
     (if leap \<and> yday = 31 + 29 - 1 then (2, 29)
      else
        let day = (if leap \<and> yday > 31 + 29 - 1 then yday - 1 else yday);
            month = day div 31;
            end = daysBefore (month + 1)
        in if day \<ge> end then (month + 2, day - end + 1)
           else (month + 1, day - daysBefore month + 1))"

definition days_of :: "int \<Rightarrow> int" where
  "days_of a = a div day_ns"

definition civil_year :: "int \<Rightarrow> int" where
  "civil_year a = fst (absDate (days_of a))"

definition civil_month :: "int \<Rightarrow> int" where
  "civil_month a = fst (monthDay (isLeap (civil_year a)) (snd (absDate (days_of a))))"

definition civil_day :: "int \<Rightarrow> int" where
  "civil_day a = snd (monthDay (isLeap (civil_year a)) (snd (absDate (days_of a))))"

text \<open>Sunday is 0; January 1 of year 1 is a Monday.\<close>

definition civil_weekday :: "int \<Rightarrow> int" where
  "civil_weekday a = (days_of a + 1) mod 7"

definition civil_hour :: "int \<Rightarrow> int" where
  "civil_hour a = (a mod day_ns) div hour_ns"

definition civil_minute :: "int \<Rightarrow> int" where
  "civil_minute a = (a mod hour_ns) div minute_ns"

definition civil_second :: "int \<Rightarrow> int" where
  "civil_second a = (a mod minute_ns) div second_ns"

definition civil_tod :: "int \<Rightarrow> int" where
  "civil_tod a = a mod day_ns"

definition civil_clock :: "int \<Rightarrow> int" where
  "civil_clock a = civil_hour a * hour_ns + civil_minute a * minute_ns + civil_second a * second_ns"

text \<open>
  The wall-clock reading of a date. \<^verbatim>\<open>time.Date\<close> normalises its arguments: a month
  outside 1 to 12 carries into the year, and days, hours, minutes, seconds and nanoseconds
  outside their ranges carry upwards, which for them is the plain sum below.
\<close>

definition civil_date :: "int \<Rightarrow> int \<Rightarrow> int \<Rightarrow> int \<Rightarrow> int \<Rightarrow> int \<Rightarrow> int \<Rightarrow> int" where
  "civil_date year month day hour minute sec nsec =
     (let m = month - 1;
          y = year + m div 12;
          mo = m mod 12 + 1;
          d = daysSinceEpoch y + daysBefore (mo - 1)
              + (if isLeap y \<and> mo \<ge> 3 then 1 else 0) + (day - 1)
      in d * day_ns + hour * hour_ns + minute * minute_ns + sec * second_ns + nsec)"

subsection \<open>Locations and instants\<close>

text \<open>
  A \<^verbatim>\<open>time.Location\<close>: the offset from UTC, in seconds, that holds before the first
  transition, and the transitions in ascending order, each with the second (counted from
  January 1 of year 1, 00:00:00 UTC) at which it takes effect and the offset from then on.
\<close>

datatype Location = Location (first_offset: int) (transitions: "(int \<times> int) list")

definition UTC :: Location where
  "UTC = Location 0 []"

definition FixedZone :: "int \<Rightarrow> Location" where
  "FixedZone offset = Location offset []"

text \<open>
  \<^verbatim>\<open>Location.lookup\<close>: the offset in use at a second, and the bounds of the period in
  which that offset is in use; \<open>None\<close> is a period that is open on that side.
\<close>

fun lookup_tx :: "int \<Rightarrow> int option \<Rightarrow> (int \<times> int) list \<Rightarrow> int \<Rightarrow> int \<times> int option \<times> int option" where
  "lookup_tx offset start [] sec = (offset, start, None)"
| "lookup_tx offset start ((when, offset') # rest) sec =
     (if sec < when then (offset, start, Some when)
      else lookup_tx offset' (Some when) rest sec)"

definition zone_lookup :: "Location \<Rightarrow> int \<Rightarrow> int \<times> int option \<times> int option" where
  "zone_lookup l sec = lookup_tx (first_offset l) None (transitions l) sec"

text \<open>
  A \<^verbatim>\<open>time.Time\<close>: the instant, in nanoseconds since January 1 of year 1, 00:00:00 UTC,
  and the location in which its calendar fields are read. The zero value is
  \<open>Time 0 UTC\<close>. The monotonic reading that \<^verbatim>\<open>time.Now()\<close> attaches is left out: within
  one call of \<^verbatim>\<open>next\<close> it gives the same differences as the wall clock.
\<close>

datatype Time = Time (since_epoch: int) (location: Location)

text \<open>The wall-clock reading of an instant in its location.\<close>

definition abs_ns :: "Time \<Rightarrow> int" where
  "abs_ns t =
     since_epoch t + fst (zone_lookup (location t) (since_epoch t div second_ns)) * second_ns"

definition Year :: "Time \<Rightarrow> int" where "Year t = civil_year (abs_ns t)"
definition Month :: "Time \<Rightarrow> int" where "Month t = civil_month (abs_ns t)"
definition Day :: "Time \<Rightarrow> int" where "Day t = civil_day (abs_ns t)"
definition Weekday :: "Time \<Rightarrow> int" where "Weekday t = civil_weekday (abs_ns t)"
definition Hour :: "Time \<Rightarrow> int" where "Hour t = civil_hour (abs_ns t)"
definition Minute :: "Time \<Rightarrow> int" where "Minute t = civil_minute (abs_ns t)"
definition Second :: "Time \<Rightarrow> int" where "Second t = civil_second (abs_ns t)"

text \<open>
  \<^verbatim>\<open>time.Date\<close> in a location: the wall-clock reading is looked up as if it were UTC;
  if the instant that the offset found gives lies outside the period of that offset, the
  instant itself is looked up.
\<close>

definition Date :: "int \<Rightarrow> int \<Rightarrow> int \<Rightarrow> int \<Rightarrow> int \<Rightarrow> int \<Rightarrow> int \<Rightarrow> Location \<Rightarrow> Time" where
  "Date year month day hour minute sec nsec l =
     (let a = civil_date year month day hour minute sec nsec;
          unix = a div second_ns;
          (offset, start, end) = zone_lookup l unix;
          offset = (if offset \<noteq> 0 then
                      let utc = unix - offset in
                      if (case start of Some st \<Rightarrow> utc < st | None \<Rightarrow> False)
                         \<or> (case end of Some en \<Rightarrow> utc \<ge> en | None \<Rightarrow> False)
                      then fst (zone_lookup l utc) else offset
                    else offset)
      in Time (a - offset * second_ns) l)"

definition Time_Add :: "Time \<Rightarrow> Duration \<Rightarrow> Time" where
  "Time_Add t d = Time (since_epoch t + d) (location t)"

text \<open>\<^verbatim>\<open>Time.Sub\<close> saturates at the largest and the smallest duration.\<close>

definition Sub :: "Time \<Rightarrow> Time \<Rightarrow> Duration" where
  "Sub t u = max minDuration (min maxDuration (since_epoch t - since_epoch u))"

definition Before :: "Time \<Rightarrow> Time \<Rightarrow> bool" where
  "Before t u = (since_epoch t < since_epoch u)"

definition After :: "Time \<Rightarrow> Time \<Rightarrow> bool" where
  "After t u = (since_epoch t > since_epoch u)"

definition IsZero :: "Time \<Rightarrow> bool" where
  "IsZero t = (since_epoch t = 0)"

section \<open>Tasks (task.go)\<close>

datatype error = Panic string

datatype taskVariant = once | every | random' | daily | weekly | monthly

datatype blockingMode = nonBlocking | blocking' | globalBlocking

text \<open>
  A timer made by \<^verbatim>\<open>time.AfterFunc(next, s.taskCallbackGenerator(id))\<close>: its delay and
  the id that its callback sends on the run channel. Every call of \<^verbatim>\<open>time.AfterFunc\<close>
  makes a new timer object; the serial number tells the objects apart.
\<close>

datatype Timer = Timer (serial: nat) (delay: Duration) (target: "64 word")

text \<open>
  A Go map is the list of its key/value pairs, and \<open>None\<close> is the nil map. Reading a key
  that is missing, or reading the nil map, gives the zero value \<open>False\<close>.
\<close>

type_synonym gomap = "(int \<times> bool) list option"

definition lookup :: "gomap \<Rightarrow> int \<Rightarrow> bool" where
  "lookup m k =
     (case m of None \<Rightarrow> False
      | Some kvs \<Rightarrow> (case map_of kvs k of None \<Rightarrow> False | Some b \<Rightarrow> b))"

definition len :: "gomap \<Rightarrow> nat" where
  "len m = (case m of None \<Rightarrow> 0 | Some kvs \<Rightarrow> length (remdups (map fst kvs)))"

text \<open>The job is opaque to the scheduler; \<open>'j\<close> is the type of jobs.\<close>

record 'j Task =
  id' :: "64 word"
  job :: 'j
  timer :: "Timer option"
  variant :: taskVariant
  duration :: Duration
  at :: Time
  days :: gomap
  months :: gomap
  on :: int
  times' :: int
  randMin :: Duration
  randMax :: Duration
  blocking :: blockingMode

definition NewTask :: "'j \<Rightarrow> 'j Task" where
  "NewTask j =
     \<lparr> id' = 0, job = j, timer = None, variant = once, duration = 0, at = Time 0 UTC,
       days = None, months = None, on = 0, times' = - 1, randMin = 0, randMax = 0,
       blocking = nonBlocking \<rparr>"

definition Once :: "'j Task \<Rightarrow> 'j Task" where
  "Once t = t\<lparr>variant := once, times' := 1\<rparr>"

definition Every :: "Duration \<Rightarrow> 'j Task \<Rightarrow> error + 'j Task" where
  "Every d t =
     (if d < 0 then Inl (Panic ''duration must be a positive value'')
      else Inr (t\<lparr>variant := every, duration := d\<rparr>))"

definition RandomInterval :: "Duration \<Rightarrow> Duration \<Rightarrow> 'j Task \<Rightarrow> error + 'j Task" where
  "RandomInterval mn mx t =
     (if mn < 0 \<or> mx < 0 then Inl (Panic ''both min and max duration must be a positive value'')
      else if mn \<ge> mx then Inl (Panic ''min duration must be less than max duration'')
      else Inr (t\<lparr>variant := random', randMin := mn, randMax := mx\<rparr>))"

definition Daily :: "Time \<Rightarrow> 'j Task \<Rightarrow> error + 'j Task" where
  "Daily a t =
     (if IsZero a then Inl (Panic ''at time must be a valid non-zero time'')
      else Inr (t\<lparr>variant := daily, at := a\<rparr>))"

definition Weekly :: "gomap \<Rightarrow> Time \<Rightarrow> 'j Task \<Rightarrow> error + 'j Task" where
  "Weekly ds a t =
     (if len ds = 0 then Inl (Panic ''days map cannot be empty'')
      else if IsZero a then Inl (Panic ''at time must be a valid non-zero time'')
      else Inr (t\<lparr>variant := weekly, days := ds, at := a\<rparr>))"

definition Monthly :: "gomap \<Rightarrow> int \<Rightarrow> Time \<Rightarrow> 'j Task \<Rightarrow> error + 'j Task" where
  "Monthly ms o' a t =
     (if len ms = 0 then Inl (Panic ''months map cannot be empty'')
      else if o' \<le> 0 \<or> o' > 31 then Inl (Panic ''on must be a valid day of the month (1-31)'')
      else if IsZero a then Inl (Panic ''at time must be a valid non-zero time'')
      else Inr (t\<lparr>variant := monthly, months := ms, on := o', at := a\<rparr>))"

definition Times :: "int \<Rightarrow> 'j Task \<Rightarrow> error + 'j Task" where
  "Times n t =
     (if n \<le> 0 then Inl (Panic ''the task must be run a positive integer number of times'')
      else Inr (t\<lparr>times' := n\<rparr>))"

definition Forever :: "'j Task \<Rightarrow> 'j Task" where
  "Forever t = t\<lparr>times' := - 1\<rparr>"

definition NonBlocking :: "'j Task \<Rightarrow> 'j Task" where
  "NonBlocking t = t\<lparr>blocking := nonBlocking\<rparr>"

definition Blocking :: "'j Task \<Rightarrow> 'j Task" where
  "Blocking t = t\<lparr>blocking := blocking'\<rparr>"

definition GlobalBlocking :: "'j Task \<Rightarrow> 'j Task" where
  "GlobalBlocking t = t\<lparr>blocking := globalBlocking\<rparr>"

subsection \<open>The recurrence evaluator\<close>

text \<open>
  The loop \<^verbatim>\<open>for i := 0; i < 7; i++\<close> of the weekly case, with the number of
  iterations left: the first of the instants visited, 24 hours apart, whose weekday is in
  the map.
\<close>

fun weekly_scan :: "nat \<Rightarrow> gomap \<Rightarrow> Time \<Rightarrow> Time option" where
  "weekly_scan 0 ds nextRun = None"
| "weekly_scan (Suc n) ds nextRun =
     (if lookup ds (Weekday nextRun) then Some nextRun
      else weekly_scan n ds (Time_Add nextRun (24 * hour_ns)))"

text \<open>The step \<^verbatim>\<open>month++; if month > 12 { month = 1; year++ }\<close>.\<close>

definition month_succ :: "int \<times> int \<Rightarrow> int \<times> int" where
  "month_succ ym = (case ym of (year, month) \<Rightarrow>
     (if month + 1 > 12 then (year + 1, 1) else (year, month + 1)))"

text \<open>The loop \<^verbatim>\<open>for i := 0; i < 12; i++\<close> of the monthly case.\<close>

fun monthly_scan :: "nat \<Rightarrow> gomap \<Rightarrow> int \<times> int \<Rightarrow> (int \<times> int) option" where
  "monthly_scan 0 ms ym = None"
| "monthly_scan (Suc n) ms ym =
     (if lookup ms (snd ym) then Some ym else monthly_scan n ms (month_succ ym))"

text \<open>
  \<open>next' now r t\<close> is \<^verbatim>\<open>t.next()\<close> when \<^verbatim>\<open>time.Now()\<close> reads \<open>now\<close> and
  \<^verbatim>\<open>rand.Int63n\<close>, if called, draws \<open>r\<close>. The result is the delay, whether the task is
  kept, and the task after the call. \<^verbatim>\<open>rand.Int63n\<close> panics on a bound that is not
  positive; the bound is the 64-bit difference \<^verbatim>\<open>t.randMax - t.randMin\<close>. The variant
  is a closed type, which leaves no unknown variant to panic on.
\<close>

definition next' :: "Time \<Rightarrow> int \<Rightarrow> 'j Task \<Rightarrow> error + (Duration \<times> bool \<times> 'j Task)" where
  "next' now r t0 =
     (if times' t0 = 0 then Inr (0, False, t0)
      else
        let t = (if times' t0 > 0 then t0\<lparr>times' := times' t0 - 1\<rparr> else t0) in
        case variant t of
          once \<Rightarrow> Inr (Sub now now, True, t)
        | every \<Rightarrow> Inr (Sub (Time_Add now (duration t)) now, True, t)
        | random' \<Rightarrow>
            if int64 (randMax t - randMin t) \<le> 0
            then Inl (Panic ''invalid argument to Int63n'')
            else Inr (Sub (Time_Add now (int64 (randMin t + r))) now, True, t)
        | daily \<Rightarrow>
            let nextRun = Date (Year now) (Month now) (Day now)
                            (Hour (at t)) (Minute (at t)) (Second (at t)) 0 (location now);
                nextRun = (if Before nextRun now then Time_Add nextRun (24 * hour_ns) else nextRun)
            in Inr (Sub nextRun now, True, t)
        | weekly \<Rightarrow>
            if days t = None then Inr (0, False, t)
            else
              let nextRun = Date (Year now) (Month now) (Day now)
                              (Hour (at t)) (Minute (at t)) (Second (at t)) 0 (location now);
                  nextRun = (if \<not> After nextRun now then Time_Add nextRun (24 * hour_ns) else nextRun)
              in (case weekly_scan 7 (days t) nextRun of
                    None \<Rightarrow> Inr (0, False, t)
                  | Some nextRun \<Rightarrow> Inr (Sub nextRun now, True, t))
        | monthly \<Rightarrow>
            if months t = None \<or> on t \<le> 0 \<or> on t > 31 then Inr (0, False, t)
            else
              let year = Year now; month = Month now;
                  ym = (if Day now > on t \<or>
                           (Day now = on t \<and>
                            After now (Date year month (on t)
                                         (Hour (at t)) (Minute (at t)) (Second (at t)) 0
                                         (location now)))
                        then month_succ (year, month) else (year, month))
              in (case monthly_scan 12 (months t) ym of
                    None \<Rightarrow> Inr (0, False, t)
                  | Some (year, month) \<Rightarrow>
                      Inr (Sub (Date year month (on t)
                                  (Hour (at t)) (Minute (at t)) (Second (at t)) 0
                                  (location now)) now,
                           True, t)))"

section \<open>The scheduler (scheduler.go)\<close>

text \<open>
  A \<^verbatim>\<open>sync.Mutex\<close> made by \<^verbatim>\<open>new(sync.Mutex)\<close>. Who holds it is a matter of the
  interleaving of the workers and is not part of this sequential model; whether a task has
  one in the table is.
\<close>

datatype Mutex = Mutex

text \<open>
  The task table holds each task by value under its id: the source stores pointers, and the
  model follows it under the proviso that no task object is handed to \<^verbatim>\<open>Add\<close> twice.
  \<open>closed\<close> says that \<^verbatim>\<open>Stop\<close> has closed the three channels. Three components are
  not fields of the source. \<open>spawned\<close> is the log of the statements
  \<^verbatim>\<open>go s.taskRunner(task)\<close> executed so far, oldest first. \<open>armed\<close> holds the timers of
  the Go runtime that have been made by \<^verbatim>\<open>time.AfterFunc\<close> and have neither fired nor
  been stopped, and \<open>timerSeq\<close> counts the timers made.
\<close>

record 'j Scheduler =
  tasks :: "64 word \<rightharpoonup> 'j Task"
  nextID :: "64 word"
  stopped :: bool
  taskMus :: "64 word \<rightharpoonup> Mutex"
  closed :: bool
  spawned :: "'j Task list"
  armed :: "Timer list"
  timerSeq :: nat

definition New :: "'j Scheduler" where
  "New = \<lparr> tasks = Map.empty, nextID = 0, stopped = False, taskMus = Map.empty,
           closed = False, spawned = [], armed = [], timerSeq = 0 \<rparr>"

text \<open>
  \<^verbatim>\<open>time.AfterFunc(d, s.taskCallbackGenerator(id))\<close> makes a timer and arms it;
  \<^verbatim>\<open>timer.Stop()\<close> disarms a timer that has not fired.
\<close>

definition AfterFunc :: "Duration \<Rightarrow> 64 word \<Rightarrow> 'j Scheduler \<Rightarrow> Timer \<times> 'j Scheduler" where
  "AfterFunc d i s =
     (let tm = Timer (timerSeq s) d i
      in (tm, s\<lparr>armed := armed s @ [tm], timerSeq := timerSeq s + 1\<rparr>))"

definition Timer_Stop :: "Timer \<Rightarrow> 'j Scheduler \<Rightarrow> 'j Scheduler" where
  "Timer_Stop tm s = s\<lparr>armed := removeAll tm (armed s)\<rparr>"

text \<open>
  The callback of a timer: the id that it sends on the run channel, unless the scheduler
  has been stopped.
\<close>

definition taskCallbackGenerator :: "'j Scheduler \<Rightarrow> 64 word \<Rightarrow> 64 word option" where
  "taskCallbackGenerator s i = (if \<not> stopped s then Some i else None)"

text \<open>
  \<^verbatim>\<open>Add\<close> returns the id, the scheduler with its counter advanced, and the task it has
  sent on the add channel. The counter is an \<^verbatim>\<open>atomic.Uint64\<close>: \<open>+\<close> wraps around.
  A send on a closed channel panics.
\<close>

definition Add :: "'j Scheduler \<Rightarrow> 'j Task \<Rightarrow> error + (64 word \<times> 'j Scheduler \<times> 'j Task)" where
  "Add s task =
     (let i = nextID s + 1;
          s' = s\<lparr>nextID := i\<rparr>;
          task' = task\<lparr>id' := i\<rparr>
      in if closed s' then Inl (Panic ''send on closed channel'')
         else Inr (i, s', task'))"

text \<open>\<^verbatim>\<open>Del\<close> sends the id on the del channel.\<close>

definition Del :: "'j Scheduler \<Rightarrow> 64 word \<Rightarrow> error + 64 word" where
  "Del s i = (if closed s then Inl (Panic ''send on closed channel'') else Inr i)"

definition delTask :: "'j Scheduler \<Rightarrow> 64 word \<Rightarrow> 'j Scheduler" where
  "delTask s i =
     (let s1 = (case tasks s i of
                  Some task \<Rightarrow>
                    let s0 = (case timer task of Some tm \<Rightarrow> Timer_Stop tm s | None \<Rightarrow> s)
                    in s0\<lparr>tasks := (tasks s0)(i := None)\<rparr>
                | None \<Rightarrow> s)
      in s1\<lparr>taskMus := (taskMus s1)(i := None)\<rparr>)"

definition addTask :: "Time \<Rightarrow> int \<Rightarrow> 'j Scheduler \<Rightarrow> 'j Task \<Rightarrow> error + 'j Scheduler" where
  "addTask now r s task =
     (let s1 = s\<lparr>tasks := (tasks s)(id' task \<mapsto> task)\<rparr>;
          s2 = s1\<lparr>taskMus := (taskMus s1)(id' task \<mapsto> Mutex)\<rparr>
      in case next' now r task of
           Inl e \<Rightarrow> Inl e
         | Inr (nxt, ok, task1) \<Rightarrow>
             if ok then
               let (tm, s3) = AfterFunc nxt (id' task1) s2;
                   task2 = task1\<lparr>timer := Some tm\<rparr>
               in Inr (s3\<lparr>tasks := (tasks s3)(id' task2 \<mapsto> task2)\<rparr>)
             else Inr (delTask s2 (id' task1)))"

text \<open>The case \<^verbatim>\<open>id, ok := <-s.run\<close> of the dispatch loop, for a received id.\<close>

definition runTask :: "Time \<Rightarrow> int \<Rightarrow> 'j Scheduler \<Rightarrow> 64 word \<Rightarrow> error + 'j Scheduler" where
  "runTask now r s i =
     (case tasks s i of
        None \<Rightarrow> Inr s
      | Some task \<Rightarrow>
          (case next' now r task of
             Inl e \<Rightarrow> Inl e
           | Inr (nxt, ok, task1) \<Rightarrow>
               if ok then
                 let (tm, s1) = AfterFunc nxt i s;
                     task2 = task1\<lparr>timer := Some tm\<rparr>;
                     s2 = s1\<lparr>tasks := (tasks s1)(i \<mapsto> task2)\<rparr>
                 in Inr (s2\<lparr>spawned := spawned s2 @ [task2]\<rparr>)
               else
                 let s1 = delTask s (id' task1)
                 in Inr (s1\<lparr>spawned := spawned s1 @ [task1]\<rparr>)))"

text \<open>
  \<^verbatim>\<open>Stop\<close> stops the timer of every task in the table, and empties both tables. A timer
  held by an entry of the table has been made for the id of that entry, so the timers to
  stop are those that the entry of their own id holds. Closing a channel that is closed
  already panics.
\<close>

definition held :: "'j Scheduler \<Rightarrow> Timer \<Rightarrow> bool" where
  "held s tm = (case tasks s (target tm) of
                  Some task \<Rightarrow> timer task = Some tm
                | None \<Rightarrow> False)"

definition Stop :: "'j Scheduler \<Rightarrow> error + 'j Scheduler" where
  "Stop s =
     (let s1 = s\<lparr>stopped := True\<rparr>;
          s2 = s1\<lparr>armed := filter (\<lambda>tm. \<not> held s1 tm) (armed s1), tasks := Map.empty\<rparr>;
          s3 = s2\<lparr>taskMus := Map.empty\<rparr>
      in if closed s3 then Inl (Panic ''close of closed channel'')
         else Inr (s3\<lparr>closed := True\<rparr>))"

text \<open>
  What one iteration of the \<^verbatim>\<open>select\<close> of \<^verbatim>\<open>Run\<close> receives: the cancellation of
  the context, an id from the run channel, a task from the add channel, an id from the del
  channel, or the closing of a channel. An iteration that calls \<^verbatim>\<open>next\<close> carries the
  reading of the clock and the random draw of that call.
\<close>

datatype 'j event =
    CtxDone
  | RunCh "64 word" Time int
  | AddCh "'j Task" Time int
  | DelCh "64 word"
  | ChClosed

text \<open>
  The dispatch loop on the events it receives, in order. It returns on cancellation and
  on a closed channel, and it ends when a call panics; with no event left it is waiting
  in \<^verbatim>\<open>select\<close>, and the state then is the result.
\<close>

fun Run :: "'j Scheduler \<Rightarrow> 'j event list \<Rightarrow> error + 'j Scheduler" where
  "Run s [] = Inr s"
| "Run s (CtxDone # es) = Stop s"
| "Run s (ChClosed # es) = Inr s"
| "Run s (RunCh i now r # es) =
     (case runTask now r s i of Inl e \<Rightarrow> Inl e | Inr s' \<Rightarrow> Run s' es)"
| "Run s (AddCh task now r # es) =
     (case addTask now r s task of Inl e \<Rightarrow> Inl e | Inr s' \<Rightarrow> Run s' es)"
| "Run s (DelCh i # es) = Run (delTask s i) es"

text \<open>
  The worker. With the per-task mutex missing from the table, \<^verbatim>\<open>s.taskMus[task.id]\<close>
  is the nil pointer and \<^verbatim>\<open>taskMu.Lock()\<close> dereferences it; this happens before the
  deferred \<^verbatim>\<open>recover\<close> is set up. \<open>Inr j\<close> says that the job \<open>j\<close> has been invoked.
\<close>

definition taskRunner :: "'j Scheduler \<Rightarrow> 'j Task \<Rightarrow> error + 'j" where
  "taskRunner s task =
     (case blocking task of
        nonBlocking \<Rightarrow> Inr (job task)
      | blocking' \<Rightarrow>
          (case taskMus s (id' task) of
             None \<Rightarrow> Inl (Panic ''runtime error: invalid memory address or nil pointer dereference'')
           | Some taskMu \<Rightarrow> Inr (job task))
      | globalBlocking \<Rightarrow> Inr (job task))"

text \<open>
  The firing of a timer: the runtime takes an armed timer off its list and runs the
  callback, and the dispatch loop handles the id that the callback has sent. \<open>None\<close> says
  that the timer is not armed and cannot fire.
\<close>

definition fire_timer :: "Time \<Rightarrow> int \<Rightarrow> Timer \<Rightarrow> 'j Scheduler \<Rightarrow> (error + 'j Scheduler) option" where
  "fire_timer now r tm s =
     (if tm \<in> set (armed s) then
        let s1 = s\<lparr>armed := removeAll tm (armed s)\<rparr>
        in (case taskCallbackGenerator s1 (target tm) of
              None \<Rightarrow> Some (Inr s1)
            | Some i \<Rightarrow> Some (Run s1 [RunCh i now r]))
      else None)"

section \<open>Notions used by the properties\<close>

text \<open>A location whose offset from UTC never changes.\<close>

definition fixed_zone :: "Location \<Rightarrow> bool" where
  "fixed_zone l = (transitions l = [])"

text \<open>
  The zone America/New_York in 2024: five hours behind UTC until 2024-03-10 07:00:00 UTC,
  four hours behind until 2024-11-03 06:00:00 UTC, five hours behind after that.
\<close>

definition New_York :: Location where
  "New_York = Location (- 18000)
     [(civil_date 2024 3 10 7 0 0 0 div second_ns, - 14400),
      (civil_date 2024 11 3 6 0 0 0 div second_ns, - 18000)]"

text \<open>The time of day of an instant in its location, in nanoseconds since midnight.\<close>

definition ToD :: "Time \<Rightarrow> Duration" where
  "ToD t = civil_tod (abs_ns t)"

text \<open>The time of day that \<^verbatim>\<open>next\<close> reads off \<^verbatim>\<open>t.at\<close>: its hour, minute and second.\<close>

definition clock :: "Time \<Rightarrow> Duration" where
  "clock a = Hour a * hour_ns + Minute a * minute_ns + Second a * second_ns"

text \<open>The task counter after a call of \<^verbatim>\<open>next\<close> that gets past the first test.\<close>

definition decremented :: "'j Task \<Rightarrow> 'j Task" where
  "decremented t = (if times' t > 0 then t\<lparr>times' := times' t - 1\<rparr> else t)"

text \<open>
  The instants that the scan of a weekly task visits: today at \<open>at\<close>, or 24 hours later
  if that is not after \<open>now\<close>, and the six instants that follow in steps of 24 hours.
\<close>

definition weekly_candidates :: "Time \<Rightarrow> 'j Task \<Rightarrow> Time list" where
  "weekly_candidates now t =
     (let today = Date (Year now) (Month now) (Day now)
                    (Hour (at t)) (Minute (at t)) (Second (at t)) 0 (location now);
          first = (if After today now then today else Time_Add today (24 * hour_ns))
      in map (\<lambda>k. Time_Add first (int k * (24 * hour_ns))) [0..<7])"

text \<open>
  Whether the schedule of a task has a next occurrence: for a weekly task, one of the
  instants visited falls on a weekday of its map; for a monthly task, the day of the month
  is one of 1 to 31 and one of the twelve months is in its map.
\<close>

definition has_occurrence :: "Time \<Rightarrow> 'j Task \<Rightarrow> bool" where
  "has_occurrence now t =
     (case variant t of
        weekly \<Rightarrow> days t \<noteq> None
                   \<and> list_ex (\<lambda>c. lookup (days t) (Weekday c)) (weekly_candidates now t)
      | monthly \<Rightarrow> months t \<noteq> None \<and> 0 < on t \<and> on t \<le> 31
                    \<and> list_ex (\<lambda>m. lookup (months t) m) [1..12]
      | _ \<Rightarrow> True)"

text \<open>The month after a month of a year.\<close>

definition following_month :: "int \<Rightarrow> int \<Rightarrow> int \<times> int" where
  "following_month year month = (if month = 12 then (year + 1, 1) else (year, month + 1))"

text \<open>The number of workers spawned for the task with a given id.\<close>

definition fires :: "64 word \<Rightarrow> 'j Scheduler \<Rightarrow> nat" where
  "fires i s = length (filter (\<lambda>w. id' w = i) (spawned s))"

fun admits :: "64 word \<Rightarrow> 'j event \<Rightarrow> bool" where
  "admits i (AddCh task now r) = (id' task = i)"
| "admits i e = False"

text \<open>
  Rounds of fires of the task under the id \<open>i\<close>, one for each reading of the clock: in
  each round the timer that the entry of the task holds fires, and the dispatch loop
  handles the fire. \<open>None\<close> says that some round found no task under \<open>i\<close>, or its timer
  not armed.
\<close>

fun refire :: "(Time \<times> int) list \<Rightarrow> 64 word \<Rightarrow> 'j Scheduler \<Rightarrow> (error + 'j Scheduler) option" where
  "refire [] i s = Some (Inr s)"
| "refire ((now, r) # fs) i s =
     (case tasks s i of
        None \<Rightarrow> None
      | Some task \<Rightarrow>
          (case timer task of
             None \<Rightarrow> None
           | Some tm \<Rightarrow>
               (case fire_timer now r tm s of
                  Some (Inr s') \<Rightarrow> refire fs i s'
                | other \<Rightarrow> other)))"

text \<open>
  The life of a scheduler, as the calls of \<^verbatim>\<open>Add\<close> made on it and the events its
  dispatch loop handles in between; the result lists the ids that \<^verbatim>\<open>Add\<close> returned, in
  the order of the calls.
\<close>

datatype 'j call = CallAdd "'j Task" | Loop "'j event list"

fun lifetime :: "'j Scheduler \<Rightarrow> 'j call list \<Rightarrow> error + (64 word list \<times> 'j Scheduler)" where
  "lifetime s [] = Inr ([], s)"
| "lifetime s (CallAdd task # cs) =
     (case Add s task of
        Inl e \<Rightarrow> Inl e
      | Inr (i, s', task') \<Rightarrow>
          (case lifetime s' cs of
             Inl e \<Rightarrow> Inl e
           | Inr (ids, s'') \<Rightarrow> Inr (i # ids, s'')))"
| "lifetime s (Loop es # cs) =
     (case Run s es of Inl e \<Rightarrow> Inl e | Inr s' \<Rightarrow> lifetime s' cs)"

text \<open>The states of a scheduler made by \<^verbatim>\<open>New\<close> and used through its interface.\<close>

inductive reachable :: "'j Scheduler \<Rightarrow> bool" where
  init: "reachable New"
| add: "reachable s \<Longrightarrow> Add s task = Inr (i, s', task') \<Longrightarrow> reachable s'"
| run: "reachable s \<Longrightarrow> Run s es = Inr s' \<Longrightarrow> reachable s'"
| fire: "reachable s \<Longrightarrow> fire_timer now r tm s = Some (Inr s') \<Longrightarrow> reachable s'"
| stop: "reachable s \<Longrightarrow> Stop s = Inr s' \<Longrightarrow> reachable s'"

text \<open>
  An invariant of the two tables: a task has a mutex exactly when it is in the task table.
\<close>

definition tables_agree :: "'j Scheduler \<Rightarrow> bool" where
  "tables_agree s = (\<forall>k. tasks s k = None \<longleftrightarrow> taskMus s k = None)"

text \<open>
  The account of a task admitted under the id \<open>i\<close> with \<open>times = n\<close> when \<open>f0\<close> workers
  had been spawned for \<open>i\<close>: the workers spawned since and the runs left add up, and the
  entry under \<open>i\<close> carries the id \<open>i\<close>.
\<close>

definition within_budget :: "64 word \<Rightarrow> nat \<Rightarrow> int \<Rightarrow> 'j Scheduler \<Rightarrow> bool" where
  "within_budget i f0 n s =
     (f0 \<le> fires i s \<and> int (fires i s) \<le> int f0 + n
      \<and> (\<forall>task. tasks s i = Some task \<longrightarrow>
            id' task = i \<and> 0 \<le> times' task
            \<and> times' task + int (fires i s) = int f0 + n - 1))"

section \<open>Arithmetic of the calendar\<close>

lemma divmod_pos:
  fixes x b :: int
  assumes "0 < b"
  shows "b * (x div b) \<le> x \<and> x < b * (x div b) + b"
proof -
  have "x = b * (x div b) + x mod b" by simp
  moreover have "0 \<le> x mod b" "x mod b < b" using assms by simp_all
  ultimately show ?thesis by linarith
qed

lemma div_range:
  fixes x b k :: int
  assumes "0 < b" "b * k \<le> x" "x < b * k + b"
  shows "x div b = k"
proof -
  have "x div b = (x - b * k) div b + k" using assms(1)
    by (metis add.commute diff_add_cancel div_mult_self2 less_irrefl mult.commute)
  moreover have "(x - b * k) div b = 0" using assms by (simp add: div_pos_pos_trivial)
  ultimately show ?thesis by simp
qed

lemma small_cases4:
  fixes c :: int
  assumes "0 \<le> c" "c \<le> 4"
  shows "c - c div 4 = (if c = 4 then 3 else c)"
proof -
  from assms have "c = 0 \<or> c = 1 \<or> c = 2 \<or> c = 3 \<or> c = 4" by linarith
  then show ?thesis by auto
qed

lemma mod_top:
  fixes y b k r :: int
  assumes "y = b * k + r" "0 < r" "r \<le> b"
  shows "y mod b = 0 \<longleftrightarrow> r = b"
proof (cases "r = b")
  case True
  then show ?thesis using assms(1) by simp
next
  case False
  then have "r < b" using assms(3) by simp
  then have "y mod b = r" using assms(1,2) by simp
  then show ?thesis using assms(2) False by simp
qed

lemma absDate_sound:
  assumes "absDate d = (y, yd)"
  shows "daysSinceEpoch y + yd = d \<and> 0 \<le> yd \<and> yd < (if isLeap y then 366 else 365)"
proof -
  define n400 where "n400 = d div 146097"
  define d1 where "d1 = d - 146097 * n400"
  define c where "c = d1 div 36524"
  define n100 where "n100 = c - c div 4"
  define d2 where "d2 = d1 - 36524 * n100"
  define n4 where "n4 = d2 div 1461"
  define d3 where "d3 = d2 - 1461 * n4"
  define q where "q = d3 div 365"
  define n1 where "n1 = q - q div 4"
  have y: "y = 400 * n400 + 100 * n100 + 4 * n4 + n1 + 1"
    and yd: "yd = d3 - 365 * n1"
    using assms
    by (simp_all add: absDate_def Let_def n400_def d1_def c_def n100_def d2_def n4_def d3_def q_def n1_def)
  have d1b: "0 \<le> d1 \<and> d1 < 146097"
    using divmod_pos[of 146097 d] unfolding d1_def n400_def by linarith
  have cb: "36524 * c \<le> d1 \<and> d1 < 36524 * c + 36524"
    using divmod_pos[of 36524 d1] unfolding c_def by simp
  have cr: "0 \<le> c \<and> c \<le> 4" using cb d1b by linarith
  have n100: "n100 = (if c = 4 then 3 else c)" unfolding n100_def using small_cases4 cr by simp
  have n100b: "0 \<le> n100 \<and> n100 \<le> 3" using cr n100 by auto
  have d2b: "0 \<le> d2 \<and> d2 \<le> 36524 \<and> (n100 < 3 \<longrightarrow> d2 < 36524)"
    using d1b cb cr n100 unfolding d2_def by (cases "c = 4") auto
  have n4c: "1461 * n4 \<le> d2 \<and> d2 < 1461 * n4 + 1461"
    using divmod_pos[of 1461 d2] unfolding n4_def by simp
  have n4b: "0 \<le> n4 \<and> n4 \<le> 24" using n4c d2b by linarith
  have d3b: "0 \<le> d3 \<and> d3 < 1461 \<and> (n4 = 24 \<and> n100 < 3 \<longrightarrow> d3 < 1460)"
    using d2b n4c unfolding d3_def by auto
  have qc: "365 * q \<le> d3 \<and> d3 < 365 * q + 365"
    using divmod_pos[of 365 d3] unfolding q_def by simp
  have qr: "0 \<le> q \<and> q \<le> 4" using qc d3b by linarith
  have n1: "n1 = (if q = 4 then 3 else q)" unfolding n1_def using small_cases4 qr by simp
  have n1b: "0 \<le> n1 \<and> n1 \<le> 3" using qr n1 by auto
  have ydb: "0 \<le> yd \<and> yd \<le> 365 \<and> (n1 < 3 \<longrightarrow> yd < 365) \<and> (d3 < 1460 \<longrightarrow> yd < 365)"
    using d3b qc qr n1 unfolding yd by (cases "q = 4") auto
  have e4: "(y - 1) div 4 = 100 * n400 + 25 * n100 + n4"
    by (rule div_range) (use n1b in \<open>auto simp: y\<close>)
  have e100: "(y - 1) div 100 = 4 * n400 + n100"
    by (rule div_range) (use n1b n4b in \<open>auto simp: y\<close>)
  have e400: "(y - 1) div 400 = n400"
    by (rule div_range) (use n1b n4b n100b in \<open>auto simp: y\<close>)
  have sum: "daysSinceEpoch y + yd = d"
    unfolding daysSinceEpoch_def Let_def e4 e100 e400
    unfolding y yd d3_def d2_def d1_def by simp
  have y4: "y = 4 * (100 * n400 + 25 * n100 + n4) + (n1 + 1)" unfolding y by simp
  have y100: "y = 100 * (4 * n400 + n100) + (4 * n4 + n1 + 1)" unfolding y by simp
  have y400: "y = 400 * n400 + (100 * n100 + 4 * n4 + n1 + 1)" unfolding y by simp
  have m4: "y mod 4 = 0 \<longleftrightarrow> n1 = 3"
    using mod_top[OF y4] n1b by auto
  have m100: "y mod 100 = 0 \<longleftrightarrow> n1 = 3 \<and> n4 = 24"
    using mod_top[OF y100] n1b n4b by auto
  have m400: "y mod 400 = 0 \<longleftrightarrow> n1 = 3 \<and> n4 = 24 \<and> n100 = 3"
    using mod_top[OF y400] n1b n4b n100b by auto
  have leap: "isLeap y \<longleftrightarrow> n1 = 3 \<and> (n4 \<noteq> 24 \<or> n100 = 3)"
    unfolding isLeap_def m4 m100 m400 by blast
  have "yd < (if isLeap y then 366 else 365)"
    using ydb d3b n100b n1b leap by (cases "isLeap y") auto
  with sum ydb show ?thesis by blast
qed

lemma monthDay_sound:
  assumes "0 \<le> yd" "yd < (if leap then 366 else 365)" "monthDay leap yd = (m, dd)"
  shows "1 \<le> m \<and> m \<le> 12 \<and> 1 \<le> dd
         \<and> dd \<le> (if m = 2 \<and> leap then 29 else daysBefore m - daysBefore (m - 1))
         \<and> daysBefore (m - 1) + (if leap \<and> 3 \<le> m then 1 else 0) + (dd - 1) = yd"
proof (cases "leap \<and> yd = 59")
  case True
  then show ?thesis using assms by (simp add: monthDay_def daysBefore_def)
next
  case False
  define day where "day = (if leap \<and> yd > 59 then yd - 1 else yd)"
  define k where "k = day div 31"
  have dayb: "0 \<le> day \<and> day < 365" using assms(1,2) False unfolding day_def by (auto split: if_splits)
  have kc: "31 * k \<le> day \<and> day < 31 * k + 31"
    using divmod_pos[of 31 day] unfolding k_def by simp
  have "0 \<le> k \<and> k \<le> 11" using kc dayb by linarith
  then have ks: "k = 0 \<or> k = 1 \<or> k = 2 \<or> k = 3 \<or> k = 4 \<or> k = 5 \<or> k = 6 \<or> k = 7
                 \<or> k = 8 \<or> k = 9 \<or> k = 10 \<or> k = 11" by presburger
  have md: "(m, dd) = (if day \<ge> daysBefore (k + 1) then (k + 2, day - daysBefore (k + 1) + 1)
                       else (k + 1, day - daysBefore k + 1))"
  proof -
    have "monthDay leap yd = (if day \<ge> daysBefore (k + 1) then (k + 2, day - daysBefore (k + 1) + 1)
                       else (k + 1, day - daysBefore k + 1))"
      using False by (auto simp add: monthDay_def Let_def day_def k_def)
    with assms(3) show ?thesis by simp
  qed
  have yd: "yd = (if leap \<and> day \<ge> 59 then day + 1 else day)"
    using False unfolding day_def by (auto split: if_splits)
  from ks show ?thesis
  proof (elim disjE)
    assume "k = 0" then show ?thesis using md kc yd dayb by (auto simp: daysBefore_def split: if_splits)
  next
    assume "k = 1" then show ?thesis using md kc yd dayb by (auto simp: daysBefore_def split: if_splits)
  next
    assume "k = 2" then show ?thesis using md kc yd dayb by (auto simp: daysBefore_def split: if_splits)
  next
    assume "k = 3" then show ?thesis using md kc yd dayb by (auto simp: daysBefore_def split: if_splits)
  next
    assume "k = 4" then show ?thesis using md kc yd dayb by (auto simp: daysBefore_def split: if_splits)
  next
    assume "k = 5" then show ?thesis using md kc yd dayb by (auto simp: daysBefore_def split: if_splits)
  next
    assume "k = 6" then show ?thesis using md kc yd dayb by (auto simp: daysBefore_def split: if_splits)
  next
    assume "k = 7" then show ?thesis using md kc yd dayb by (auto simp: daysBefore_def split: if_splits)
  next
    assume "k = 8" then show ?thesis using md kc yd dayb by (auto simp: daysBefore_def split: if_splits)
  next
    assume "k = 9" then show ?thesis using md kc yd dayb by (auto simp: daysBefore_def split: if_splits)
  next
    assume "k = 10" then show ?thesis using md kc yd dayb by (auto simp: daysBefore_def split: if_splits)
  next
    assume "k = 11" then show ?thesis using md kc yd dayb by (auto simp: daysBefore_def split: if_splits)
  qed
qed

lemma civil_of_days:
  "1 \<le> civil_month t \<and> civil_month t \<le> 12 \<and> 1 \<le> civil_day t \<and> civil_day t \<le> daysIn (civil_month t) (civil_year t)
   \<and> daysSinceEpoch (civil_year t) + daysBefore (civil_month t - 1)
       + (if isLeap (civil_year t) \<and> 3 \<le> civil_month t then 1 else 0) + (civil_day t - 1) = days_of t"
proof -
  obtain y yd where a: "absDate (days_of t) = (y, yd)" by (cases "absDate (days_of t)")
  obtain m dd where b: "monthDay (isLeap y) yd = (m, dd)" by (cases "monthDay (isLeap y) yd")
  have Y: "civil_year t = y" and M: "civil_month t = m" and D: "civil_day t = dd"
    using a b by (simp_all add: civil_year_def civil_month_def civil_day_def)
  note s1 = absDate_sound[OF a]
  have s2: "1 \<le> m \<and> m \<le> 12 \<and> 1 \<le> dd
         \<and> dd \<le> (if m = 2 \<and> isLeap y then 29 else daysBefore m - daysBefore (m - 1))
         \<and> daysBefore (m - 1) + (if isLeap y \<and> 3 \<le> m then 1 else 0) + (dd - 1) = yd"
    using s1 by (intro monthDay_sound[OF _ _ b]) auto
  show ?thesis unfolding Y M D daysIn_def using s1 s2 by auto
qed

lemma Date_in_range:
  assumes "1 \<le> m" "m \<le> 12"
  shows "civil_date y m d h mi sec ns =
           (daysSinceEpoch y + daysBefore (m - 1) + (if isLeap y \<and> 3 \<le> m then 1 else 0) + (d - 1)) * day_ns
           + h * hour_ns + mi * minute_ns + sec * second_ns + ns"
proof -
  have "(m - 1) div 12 = 0" using assms by (intro div_range) auto
  moreover have "(m - 1) mod 12 = m - 1" using assms by simp
  ultimately show ?thesis by (simp add: civil_date_def Let_def)
qed

lemma Date_today:
  "civil_date (civil_year t) (civil_month t) (civil_day t) h mi sec ns =
     days_of t * day_ns + h * hour_ns + mi * minute_ns + sec * second_ns + ns"
  using civil_of_days[of t] by (simp add: Date_in_range)

lemma day_ns_val: "day_ns = 86400000000000"
  by (simp add: day_ns_def hour_ns_def minute_ns_def second_ns_def)

lemma time_split: "t = days_of t * day_ns + civil_tod t \<and> 0 \<le> civil_tod t \<and> civil_tod t < day_ns"
  by (simp add: days_of_def civil_tod_def day_ns_val)

lemma clock_bounds: "0 \<le> civil_clock a \<and> civil_clock a < day_ns"
proof -
  have h: "0 \<le> civil_hour a \<and> civil_hour a \<le> 23"
  proof -
    have "0 \<le> a mod day_ns \<and> a mod day_ns < day_ns" by (simp add: day_ns_val)
    moreover note divmod_pos[of hour_ns "a mod day_ns"]
    ultimately show ?thesis unfolding civil_hour_def day_ns_def hour_ns_def minute_ns_def second_ns_def
      by simp linarith
  qed
  have m: "0 \<le> civil_minute a \<and> civil_minute a \<le> 59"
  proof -
    have "0 \<le> a mod hour_ns \<and> a mod hour_ns < hour_ns" by (simp add: hour_ns_def minute_ns_def second_ns_def)
    moreover note divmod_pos[of minute_ns "a mod hour_ns"]
    ultimately show ?thesis unfolding civil_minute_def hour_ns_def minute_ns_def second_ns_def
      by simp linarith
  qed
  have s: "0 \<le> civil_second a \<and> civil_second a \<le> 59"
  proof -
    have "0 \<le> a mod minute_ns \<and> a mod minute_ns < minute_ns" by (simp add: minute_ns_def second_ns_def)
    moreover note divmod_pos[of second_ns "a mod minute_ns"]
    ultimately show ?thesis unfolding civil_second_def minute_ns_def second_ns_def
      by simp linarith
  qed
  show ?thesis using h m s
    unfolding civil_clock_def day_ns_def hour_ns_def minute_ns_def second_ns_def by simp
qed

lemma days_of_add_days: "days_of (t + k * day_ns) = days_of t + k"
  by (simp add: days_of_def day_ns_val)

lemma Weekday_add_days: "civil_weekday (t + k * day_ns) = (civil_weekday t + k) mod 7"
  unfolding civil_weekday_def days_of_add_days by (simp add: mod_simps algebra_simps)

lemma week_cover:
  "(\<forall>k<7. \<not> P ((w0 + int k) mod 7)) \<longleftrightarrow> (\<forall>w \<in> {0..6}. \<not> P w)"
proof
  assume a: "\<forall>k<7. \<not> P ((w0 + int k) mod 7)"
  show "\<forall>w \<in> {0..6}. \<not> P w"
  proof
    fix w :: int assume w: "w \<in> {0..6}"
    define k where "k = nat ((w - w0) mod 7)"
    have "k < 7" unfolding k_def by simp
    moreover have "(w0 + int k) mod 7 = w"
    proof -
      have "int k = (w - w0) mod 7" unfolding k_def by simp
      then have "(w0 + int k) mod 7 = (w0 + (w - w0)) mod 7" by (simp add: mod_simps)
      then show ?thesis using w by simp
    qed
    ultimately show "\<not> P w" using a by metis
  qed
next
  assume a: "\<forall>w \<in> {0..6}. \<not> P w"
  show "\<forall>k<7. \<not> P ((w0 + int k) mod 7)"
  proof (intro allI impI)
    fix k :: nat
    have "0 \<le> (w0 + int k) mod 7 \<and> (w0 + int k) mod 7 < 7" by simp
    then have "(w0 + int k) mod 7 \<in> {0..6}" by simp
    then show "\<not> P ((w0 + int k) mod 7)" using a by blast
  qed
qed

lemma month_succ_range:
  assumes "1 \<le> m" "m \<le> 12"
  shows "month_succ (y, m) = (if m = 12 then y + 1 else y, m mod 12 + 1)"
  using assms by (auto simp: month_succ_def)

lemma month_after:
  assumes "1 \<le> m" "m \<le> 12"
  shows "snd ((month_succ ^^ k) (y, m)) = (m - 1 + int k) mod 12 + 1"
proof (induction k)
  case 0
  then show ?case using assms by simp
next
  case (Suc k)
  obtain y' m' where p: "(month_succ ^^ k) (y, m) = (y', m')" by (cases "(month_succ ^^ k) (y, m)")
  with Suc have m': "m' = (m - 1 + int k) mod 12 + 1" by simp
  then have r: "1 \<le> m' \<and> m' \<le> 12"
    using pos_mod_bound[of 12 "m - 1 + int k"] pos_mod_sign[of 12 "m - 1 + int k"] by linarith
  have "snd (month_succ (y', m')) = m' mod 12 + 1" using r by (simp add: month_succ_range)
  also have "\<dots> = (m - 1 + int (Suc k)) mod 12 + 1"
    unfolding m' by (simp add: mod_simps algebra_simps)
  finally show ?case using p by simp
qed

lemma monthly_scan_None:
  "monthly_scan n ms ym = None \<longleftrightarrow> (\<forall>k<n. \<not> lookup ms (snd ((month_succ ^^ k) ym)))"
proof (induction n arbitrary: ym)
  case 0
  then show ?case by simp
next
  case (Suc n)
  have "(\<forall>k<Suc n. \<not> lookup ms (snd ((month_succ ^^ k) ym)))
        \<longleftrightarrow> \<not> lookup ms (snd ym) \<and> (\<forall>k<n. \<not> lookup ms (snd ((month_succ ^^ k) (month_succ ym))))"
    by (auto simp: less_Suc_eq_0_disj funpow_swap1)
  then show ?case using Suc.IH[of "month_succ ym"] by simp
qed

lemma year_cover:
  "(\<forall>k<12. \<not> P ((m0 + int k) mod 12 + 1)) \<longleftrightarrow> (\<forall>m \<in> {1..12}. \<not> P m)"
proof
  assume a: "\<forall>k<12. \<not> P ((m0 + int k) mod 12 + 1)"
  show "\<forall>m \<in> {1..12}. \<not> P m"
  proof
    fix m :: int assume m: "m \<in> {1..12}"
    define k where "k = nat ((m - 1 - m0) mod 12)"
    have "k < 12" unfolding k_def by simp
    moreover have "(m0 + int k) mod 12 + 1 = m"
    proof -
      have "int k = (m - 1 - m0) mod 12" unfolding k_def by simp
      then have "(m0 + int k) mod 12 = (m0 + (m - 1 - m0)) mod 12" by (simp add: mod_simps)
      then show ?thesis using m by simp
    qed
    ultimately show "\<not> P m" using a by metis
  qed
next
  assume a: "\<forall>m \<in> {1..12}. \<not> P m"
  show "\<forall>k<12. \<not> P ((m0 + int k) mod 12 + 1)"
  proof (intro allI impI)
    fix k :: nat
    have "0 \<le> (m0 + int k) mod 12 \<and> (m0 + int k) mod 12 < 12" by simp
    then have "(m0 + int k) mod 12 + 1 \<in> {1..12}" by simp
    then show "\<not> P ((m0 + int k) mod 12 + 1)" using a by blast
  qed
qed

lemma monthly_scan_12:
  assumes "1 \<le> m" "m \<le> 12"
  shows "monthly_scan 12 ms (y, m) = None \<longleftrightarrow> (\<forall>m \<in> {1..12}. \<not> lookup ms m)"
  unfolding monthly_scan_None month_after[OF assms] by (rule year_cover)

lemma days_of_same_day:
  assumes "0 \<le> c" "c < day_ns"
  shows "days_of (days_of t * day_ns + c) = days_of t"
  unfolding days_of_def[of "days_of t * day_ns + c"]
  using assms by (intro div_range) (simp_all add: day_ns_val algebra_simps)

lemma Weekday_range: "0 \<le> civil_weekday t \<and> civil_weekday t < 7"
  by (simp add: civil_weekday_def)

lemma Weekday_shift:
  "civil_weekday (t + int k * day_ns) = civil_weekday t \<longleftrightarrow> k mod 7 = 0"
proof -
  have "(civil_weekday t + int k) mod 7 = civil_weekday t \<longleftrightarrow> int k mod 7 = 0"
    using Weekday_range[of t] by presburger
  then show ?thesis unfolding Weekday_add_days by presburger
qed

lemma div_step:
  fixes y b :: int
  assumes "0 < b"
  shows "y div b = (y - 1) div b + (if y mod b = 0 then 1 else 0)"
proof -
  define q where "q = y div b"
  define r where "r = y mod b"
  have e: "y = b * q + r" unfolding q_def r_def by simp
  have r: "0 \<le> r" "r < b" unfolding r_def using assms by simp_all
  show ?thesis
  proof (cases "r = 0")
    case True
    have "b * (q - 1) \<le> y - 1" "y - 1 < b * (q - 1) + b"
      using e True assms by (simp_all add: algebra_simps)
    then have "(y - 1) div b = q - 1" by (rule div_range[OF assms])
    then show ?thesis using True unfolding q_def r_def by simp
  next
    case False
    have "b * q \<le> y - 1" "y - 1 < b * q + b" using e r False by linarith+
    then have "(y - 1) div b = q" by (rule div_range[OF assms])
    then show ?thesis using False unfolding q_def r_def by simp
  qed
qed

lemma daysSinceEpoch_step:
  "daysSinceEpoch (y + 1) = daysSinceEpoch y + (if isLeap y then 366 else 365)"
proof -
  define A where "A = (y - 1) div 4"
  define B where "B = (y - 1) div 100"
  define C where "C = (y - 1) div 400"
  define p4 where "p4 \<longleftrightarrow> y mod 4 = 0"
  define p100 where "p100 \<longleftrightarrow> y mod 100 = 0"
  define p400 where "p400 \<longleftrightarrow> y mod 400 = 0"
  have e4: "y div 4 = A + (if p4 then 1 else 0)"
    unfolding A_def p4_def by (rule div_step) simp
  have e100: "y div 100 = B + (if p100 then 1 else 0)"
    unfolding B_def p100_def by (rule div_step) simp
  have e400: "y div 400 = C + (if p400 then 1 else 0)"
    unfolding C_def p400_def by (rule div_step) simp
  have a: "p400 \<longrightarrow> p100"
  proof
    assume "p400"
    then have "y mod 400 mod 100 = 0" unfolding p400_def by simp
    moreover have "y mod 400 mod 100 = y mod 100" by (rule mod_mod_cancel) simp
    ultimately show "p100" unfolding p100_def by simp
  qed
  have b: "p100 \<longrightarrow> p4"
  proof
    assume "p100"
    then have "y mod 100 mod 4 = 0" unfolding p100_def by simp
    moreover have "y mod 100 mod 4 = y mod 4" by (rule mod_mod_cancel) simp
    ultimately show "p4" unfolding p4_def by simp
  qed
  have L: "daysSinceEpoch (y + 1) = 365 * y + (A + (if p4 then 1 else 0))
             - (B + (if p100 then 1 else 0)) + (C + (if p400 then 1 else 0))"
    unfolding daysSinceEpoch_def Let_def using e4 e100 e400 by simp
  have R: "daysSinceEpoch y = 365 * (y - 1) + A - B + C"
    unfolding daysSinceEpoch_def Let_def A_def B_def C_def by simp
  have lp: "isLeap y \<longleftrightarrow> p4 \<and> (\<not> p100 \<or> p400)"
    unfolding isLeap_def p4_def p100_def p400_def by simp
  show ?thesis unfolding L R lp using a b
    by (cases p4; cases p100; cases p400) simp_all
qed

lemma year_length_pos: "365 \<le> (if isLeap y then 366 else 365::int)"
  by simp

lemma daysSinceEpoch_mono:
  assumes "a \<le> b"
  shows "daysSinceEpoch a \<le> daysSinceEpoch b"
  using assms
proof (induction b rule: int_ge_induct)
  case base
  then show ?case by simp
next
  case (step i)
  have "daysSinceEpoch i \<le> daysSinceEpoch (i + 1)"
    unfolding daysSinceEpoch_step using year_length_pos[of i] by linarith
  with step.IH show ?case by linarith
qed

lemma absDate_unique:
  assumes "0 \<le> yd" "yd < (if isLeap y then 366 else 365)"
  shows "absDate (daysSinceEpoch y + yd) = (y, yd)"
proof -
  obtain y' yd' where a: "absDate (daysSinceEpoch y + yd) = (y', yd')"
    by (cases "absDate (daysSinceEpoch y + yd)")
  from absDate_sound[OF a] have s: "daysSinceEpoch y' + yd' = daysSinceEpoch y + yd"
    "0 \<le> yd'" "yd' < (if isLeap y' then 366 else 365)" by simp_all
  have "\<not> y < y'"
  proof
    assume "y < y'"
    then have "daysSinceEpoch (y + 1) \<le> daysSinceEpoch y'" by (intro daysSinceEpoch_mono) simp
    moreover have "daysSinceEpoch y + yd < daysSinceEpoch (y + 1)"
      unfolding daysSinceEpoch_step using assms(2) by linarith
    ultimately show False using s(1,2) by linarith
  qed
  moreover have "\<not> y' < y"
  proof
    assume "y' < y"
    then have "daysSinceEpoch (y' + 1) \<le> daysSinceEpoch y" by (intro daysSinceEpoch_mono) simp
    moreover have "daysSinceEpoch y' + yd' < daysSinceEpoch (y' + 1)"
      unfolding daysSinceEpoch_step using s(3) by linarith
    ultimately show False using s(1) assms(1) by linarith
  qed
  ultimately have "y' = y" by simp
  then show ?thesis using a s(1) by simp
qed

lemma month_cases:
  fixes m :: int
  assumes "1 \<le> m" "m \<le> 12"
  shows "m = 1 \<or> m = 2 \<or> m = 3 \<or> m = 4 \<or> m = 5 \<or> m = 6 \<or> m = 7 \<or> m = 8
         \<or> m = 9 \<or> m = 10 \<or> m = 11 \<or> m = 12"
  using assms by presburger

lemma month_start_next:
  assumes "1 \<le> m" "m \<le> 12"
  shows "daysBefore (m - 1) + (if leap \<and> 3 \<le> m then 1 else 0)
           + (if m = 2 \<and> leap then 29 else daysBefore m - daysBefore (m - 1))
         = daysBefore m + (if leap \<and> 3 \<le> m + 1 then 1 else 0)"
  using month_cases[OF assms] by (elim disjE) (simp_all add: daysBefore_def)

lemma month_length_pos:
  assumes "1 \<le> m" "m \<le> 12"
  shows "28 \<le> (if m = 2 \<and> leap then 29 else daysBefore m - daysBefore (m - 1))"
  using month_cases[OF assms] by (elim disjE) (simp_all add: daysBefore_def)

lemma month_start_mono:
  assumes "1 \<le> a" "a \<le> b" "b \<le> 13"
  shows "daysBefore (a - 1) + (if leap \<and> 3 \<le> a then 1 else 0)
         \<le> daysBefore (b - 1) + (if leap \<and> 3 \<le> b then 1 else (0::int))"
  using assms(2,1,3)
proof (induction b rule: int_ge_induct)
  case base
  then show ?case by simp
next
  case (step i)
  have r: "1 \<le> i" "i \<le> 12" using step by simp_all
  have "daysBefore (i - 1) + (if leap \<and> 3 \<le> i then 1 else 0)
        \<le> daysBefore i + (if leap \<and> 3 \<le> i + 1 then 1 else (0::int))"
    using month_start_next[OF r, of leap] month_length_pos[OF r, of leap] by linarith
  moreover have "daysBefore (a - 1) + (if leap \<and> 3 \<le> a then 1 else 0)
        \<le> daysBefore (i - 1) + (if leap \<and> 3 \<le> i then 1 else (0::int))"
    using step by simp
  ultimately show ?case by simp
qed

lemma monthDay_unique:
  assumes "1 \<le> m" "m \<le> 12" "1 \<le> d"
    "d \<le> (if m = 2 \<and> leap then 29 else daysBefore m - daysBefore (m - 1))"
  shows "monthDay leap (daysBefore (m - 1) + (if leap \<and> 3 \<le> m then 1 else 0) + (d - 1)) = (m, d)"
proof -
  define st where "st = (\<lambda>k::int. daysBefore (k - 1) + (if leap \<and> 3 \<le> k then 1 else (0::int)))"
  define ln where "ln = (\<lambda>k::int. if k = 2 \<and> leap then 29 else daysBefore k - daysBefore (k - 1))"
  define yd where "yd = st m + (d - 1)"
  have nx: "\<And>k. 1 \<le> k \<Longrightarrow> k \<le> 12 \<Longrightarrow> st k + ln k = st (k + 1)"
    unfolding st_def ln_def using month_start_next by simp
  have mono: "\<And>a b. 1 \<le> a \<Longrightarrow> a \<le> b \<Longrightarrow> b \<le> 13 \<Longrightarrow> st a \<le> st b"
    unfolding st_def using month_start_mono by simp
  have st1: "st 1 = 0" and st13: "st 13 = (if leap then 366 else 365)"
    unfolding st_def by (simp_all add: daysBefore_def)
  have dl: "d \<le> ln m" using assms(4) unfolding ln_def by simp
  have lo: "0 \<le> yd" using mono[of 1 m] st1 assms(1,2,3) unfolding yd_def by simp
  have hi: "yd < st (m + 1)" using nx[OF assms(1,2)] dl unfolding yd_def by linarith
  have "st (m + 1) \<le> st 13" using assms(1,2) by (intro mono) simp_all
  with hi have top: "yd < (if leap then 366 else 365)" unfolding st13 by linarith
  obtain m' d' where md: "monthDay leap yd = (m', d')" by (cases "monthDay leap yd")
  from monthDay_sound[OF lo top md]
  have s: "1 \<le> m'" "m' \<le> 12" "1 \<le> d'" "d' \<le> ln m'" "st m' + (d' - 1) = yd"
    unfolding st_def ln_def by simp_all
  have "\<not> m < m'"
  proof
    assume "m < m'"
    then have "st (m + 1) \<le> st m'" using assms(1) s(2) by (intro mono) simp_all
    then show False using hi s(3,5) by linarith
  qed
  moreover have "\<not> m' < m"
  proof
    assume "m' < m"
    then have "st (m' + 1) \<le> st m" using s(1) assms(2) by (intro mono) simp_all
    moreover have "st m' + (d' - 1) < st (m' + 1)" using nx[OF s(1,2)] s(4) by linarith
    ultimately show False using s(5) assms(3) unfolding yd_def by linarith
  qed
  ultimately have "m' = m" by simp
  then have "d' = d" using s(5) unfolding yd_def by simp
  show ?thesis using md \<open>m' = m\<close> \<open>d' = d\<close> unfolding yd_def st_def by simp
qed

lemma civil_of_Date:
  assumes "1 \<le> m" "m \<le> 12" "1 \<le> d" "d \<le> daysIn m y"
    and "0 \<le> h * hour_ns + mi * minute_ns + sec * second_ns + ns"
    and "h * hour_ns + mi * minute_ns + sec * second_ns + ns < day_ns"
  shows "civil_year (civil_date y m d h mi sec ns) = y \<and> civil_month (civil_date y m d h mi sec ns) = m
         \<and> civil_day (civil_date y m d h mi sec ns) = d
         \<and> civil_tod (civil_date y m d h mi sec ns) = h * hour_ns + mi * minute_ns + sec * second_ns + ns"
proof -
  define yd where "yd = daysBefore (m - 1) + (if isLeap y \<and> 3 \<le> m then 1 else 0) + (d - 1)"
  define c where "c = h * hour_ns + mi * minute_ns + sec * second_ns + ns"
  have D: "civil_date y m d h mi sec ns = (daysSinceEpoch y + yd) * day_ns + c"
    unfolding Date_in_range[OF assms(1,2)] yd_def c_def by simp
  have cb: "0 \<le> c" "c < day_ns" using assms(5,6) unfolding c_def by simp_all
  have dv: "days_of (civil_date y m d h mi sec ns) = daysSinceEpoch y + yd"
    unfolding D days_of_def using cb
    by (intro div_range) (simp_all add: day_ns_val algebra_simps)
  have dl: "d \<le> (if m = 2 \<and> isLeap y then 29 else daysBefore m - daysBefore (m - 1))"
    using assms(4) unfolding daysIn_def by simp
  have md: "monthDay (isLeap y) yd = (m, d)"
    unfolding yd_def by (rule monthDay_unique[OF assms(1,2,3) dl])
  have "0 \<le> yd \<and> yd < (if isLeap y then 366 else 365)"
  proof -
    have "0 \<le> daysBefore (m - 1)" by (simp add: daysBefore_def)
    then have "0 \<le> yd" using assms(3) unfolding yd_def by simp
    moreover have "yd < daysBefore m + (if isLeap y \<and> 3 \<le> m + 1 then 1 else 0)"
      using month_start_next[OF assms(1,2), of "isLeap y"] dl unfolding yd_def by linarith
    moreover have "daysBefore m + (if isLeap y \<and> 3 \<le> m + 1 then 1 else 0)
                   \<le> (if isLeap y then 366 else 365)"
      using month_start_mono[of "m + 1" 13 "isLeap y"] assms(1,2) by (simp add: daysBefore_def)
    ultimately show ?thesis by linarith
  qed
  then have ad: "absDate (daysSinceEpoch y + yd) = (y, yd)" by (intro absDate_unique) simp_all
  have td: "civil_tod (civil_date y m d h mi sec ns) = c"
  proof -
    have "((daysSinceEpoch y + yd) * day_ns + c) mod day_ns = c mod day_ns" by simp
    also have "\<dots> = c" using cb by simp
    finally show ?thesis unfolding civil_tod_def D .
  qed
  show ?thesis using ad md td unfolding civil_year_def civil_month_def civil_day_def dv c_def by simp
qed

lemma monthly_scan_hit: "lookup ms m \<Longrightarrow> monthly_scan 12 ms (y, m) = Some (y, m)"
  by (simp add: eval_nat_numeral)

section \<open>Instants in a location\<close>

lemma zone_lookup_fixed: "fixed_zone l \<Longrightarrow> zone_lookup l x = (first_offset l, None, None)"
  by (simp add: fixed_zone_def zone_lookup_def)

lemma abs_ns_fixed:
  "fixed_zone (location t) \<Longrightarrow> abs_ns t = since_epoch t + first_offset (location t) * second_ns"
  by (simp add: abs_ns_def zone_lookup_fixed)

lemma Date_fixed:
  "fixed_zone l \<Longrightarrow>
   Date y m d h mi s n l = Time (civil_date y m d h mi s n - first_offset l * second_ns) l"
  by (simp add: Date_def zone_lookup_fixed Let_def)

lemma abs_ns_Date_fixed: "fixed_zone l \<Longrightarrow> abs_ns (Date y m d h mi s n l) = civil_date y m d h mi s n"
  by (simp add: Date_fixed abs_ns_fixed)

lemma abs_ns_Add_fixed: "fixed_zone (location t) \<Longrightarrow> abs_ns (Time_Add t d) = abs_ns t + d"
  by (simp add: abs_ns_fixed Time_Add_def)

lemma location_Time_Add: "location (Time_Add t d) = location t"
  by (simp add: Time_Add_def)

lemma Time_Add_Add: "Time_Add (Time_Add t d) e = Time_Add t (d + e)"
  by (simp add: Time_Add_def)

lemma clock_civil: "clock a = civil_clock (abs_ns a)"
  by (simp add: clock_def civil_clock_def Hour_def Minute_def Second_def)

lemma clock_range: "0 \<le> clock a \<and> clock a < day_ns"
  unfolding clock_civil by (rule clock_bounds)

lemma ToD_split: "abs_ns t = days_of (abs_ns t) * day_ns + ToD t \<and> 0 \<le> ToD t \<and> ToD t < day_ns"
  unfolding ToD_def by (rule time_split)

lemma since_epoch_fixed:
  assumes "fixed_zone (location t)"
  shows "since_epoch t = days_of (abs_ns t) * day_ns + ToD t - first_offset (location t) * second_ns"
  using ToD_split[of t] abs_ns_fixed[OF assms] by linarith

lemma today_at:
  assumes "fixed_zone (location now)"
  shows "Date (Year now) (Month now) (Day now) (Hour a) (Minute a) (Second a) 0 (location now)
           = Time (days_of (abs_ns now) * day_ns + clock a - first_offset (location now) * second_ns)
                  (location now)"
  unfolding Date_fixed[OF assms] Year_def Month_def Day_def Date_today clock_def by simp

lemma Sub_exact:
  assumes "minDuration \<le> since_epoch t - since_epoch u" "since_epoch t - since_epoch u \<le> maxDuration"
  shows "Sub t u = since_epoch t - since_epoch u"
  using assms by (simp add: Sub_def)

lemma Sub_small:
  assumes "0 \<le> since_epoch t - since_epoch u" "since_epoch t - since_epoch u \<le> 100 * day_ns"
  shows "Sub t u = since_epoch t - since_epoch u"
  using assms by (intro Sub_exact) (simp_all add: minDuration_def maxDuration_def day_ns_val)

lemma Sub_self: "Sub t t = 0"
  by (simp add: Sub_def minDuration_def maxDuration_def)

text \<open>Unfolding sets for evaluating the clock and dates at given numbers.\<close>

lemmas duration_defs = second_ns_def minute_ns_def hour_ns_def day_ns_def

lemmas clock_defs = duration_defs civil_hour_def civil_minute_def civil_second_def civil_tod_def
  civil_clock_def days_of_def Hour_def Minute_def Second_def ToD_def clock_def

lemmas date_defs = civil_date_def daysSinceEpoch_def daysBefore_def isLeap_def Let_def

section \<open>The recurrence evaluator, case by case\<close>

lemma decremented_fields:
  "id' (decremented t) = id' t" "job (decremented t) = job t" "timer (decremented t) = timer t"
  "variant (decremented t) = variant t" "duration (decremented t) = duration t"
  "at (decremented t) = at t" "days (decremented t) = days t" "months (decremented t) = months t"
  "on (decremented t) = on t" "randMin (decremented t) = randMin t"
  "randMax (decremented t) = randMax t" "blocking (decremented t) = blocking t"
  "times' (decremented t) = (if 0 < times' t then times' t - 1 else times' t)"
  by (simp_all add: decremented_def)

lemma next_zero: "times' t = 0 \<Longrightarrow> next' now r t = Inr (0, False, t)"
  by (simp add: next'_def)

lemma next_once:
  "times' t \<noteq> 0 \<Longrightarrow> variant t = once \<Longrightarrow> next' now r t = Inr (0, True, decremented t)"
  by (simp add: next'_def decremented_def[symmetric] decremented_fields Let_def Sub_self)

lemma next_every:
  "times' t \<noteq> 0 \<Longrightarrow> variant t = every \<Longrightarrow>
   next' now r t = Inr (Sub (Time_Add now (duration t)) now, True, decremented t)"
  by (simp add: next'_def decremented_def[symmetric] decremented_fields Let_def)

lemma next_random:
  "times' t \<noteq> 0 \<Longrightarrow> variant t = random' \<Longrightarrow>
   next' now r t = (if int64 (randMax t - randMin t) \<le> 0
                    then Inl (Panic ''invalid argument to Int63n'')
                    else Inr (Sub (Time_Add now (int64 (randMin t + r))) now, True, decremented t))"
  by (simp add: next'_def decremented_def[symmetric] decremented_fields Let_def)

lemma next_daily:
  assumes "times' t \<noteq> 0" "variant t = daily"
  shows "next' now r t =
     Inr (Sub (if Before (Date (Year now) (Month now) (Day now)
                            (Hour (at t)) (Minute (at t)) (Second (at t)) 0 (location now)) now
               then Time_Add (Date (Year now) (Month now) (Day now)
                                (Hour (at t)) (Minute (at t)) (Second (at t)) 0 (location now))
                      (24 * hour_ns)
               else Date (Year now) (Month now) (Day now)
                      (Hour (at t)) (Minute (at t)) (Second (at t)) 0 (location now)) now,
          True, decremented t)"
  using assms
  by (simp add: next'_def decremented_def[symmetric] decremented_fields Let_def)

lemma next_weekly:
  assumes "times' t \<noteq> 0" "variant t = weekly"
  shows "next' now r t =
     (if days t = None then Inr (0, False, decremented t)
      else case weekly_scan 7 (days t)
                  (if After (Date (Year now) (Month now) (Day now)
                               (Hour (at t)) (Minute (at t)) (Second (at t)) 0 (location now)) now
                   then Date (Year now) (Month now) (Day now)
                          (Hour (at t)) (Minute (at t)) (Second (at t)) 0 (location now)
                   else Time_Add (Date (Year now) (Month now) (Day now)
                                    (Hour (at t)) (Minute (at t)) (Second (at t)) 0 (location now))
                          (24 * hour_ns)) of
             None \<Rightarrow> Inr (0, False, decremented t)
           | Some nextRun \<Rightarrow> Inr (Sub nextRun now, True, decremented t))"
  using assms
  by (simp add: next'_def decremented_def[symmetric] decremented_fields Let_def
      cong: option.case_cong)

lemma next_monthly:
  assumes "times' t \<noteq> 0" "variant t = monthly"
  shows "next' now r t =
     (if months t = None \<or> on t \<le> 0 \<or> on t > 31 then Inr (0, False, decremented t)
      else case monthly_scan 12 (months t)
                  (if Day now > on t \<or>
                      (Day now = on t \<and>
                       After now (Date (Year now) (Month now) (on t)
                                    (Hour (at t)) (Minute (at t)) (Second (at t)) 0 (location now)))
                   then month_succ (Year now, Month now) else (Year now, Month now)) of
             None \<Rightarrow> Inr (0, False, decremented t)
           | Some (year, month) \<Rightarrow>
               Inr (Sub (Date year month (on t) (Hour (at t)) (Minute (at t)) (Second (at t)) 0
                           (location now)) now,
                    True, decremented t))"
  using assms
  by (simp add: next'_def decremented_def[symmetric] decremented_fields Let_def
      cong: option.case_cong prod.case_cong)

lemma next_result_task:
  assumes "next' now r t = Inr (d, k, t')"
  shows "t' = (if times' t = 0 then t else decremented t)"
proof (cases "times' t = 0")
  case True
  then show ?thesis using assms by (simp add: next_zero)
next
  case nz: False
  show ?thesis
  proof (cases "variant t")
    case once
    then show ?thesis using assms nz by (simp add: next_once)
  next
    case every
    then show ?thesis using assms nz by (simp add: next_every)
  next
    case random'
    then show ?thesis using assms nz by (simp add: next_random split: if_splits)
  next
    case daily
    then show ?thesis using assms nz by (simp add: next_daily)
  next
    case weekly
    then show ?thesis using assms nz
      by (auto simp add: next_weekly split: if_splits option.splits)
  next
    case monthly
    then show ?thesis using assms nz
      by (auto simp add: next_monthly split: if_splits option.splits)
  qed
qed

text \<open>
  C9. For every task and every call of \<open>next\<close> that returns: the only field of the task
  that the call may change is \<open>times\<close>, decremented by exactly one when positive; \<open>id\<close>,
  \<open>job\<close>, \<open>timer\<close>, \<open>variant\<close>, \<open>duration\<close>, \<open>at\<close>, \<open>days\<close>, \<open>months\<close>,
  \<open>on\<close>, \<open>randMin\<close>, \<open>randMax\<close> and the blocking mode are unchanged.
\<close>

theorem next_frame:
  assumes "next' now r t = Inr (d, k, t')"
  shows "id' t' = id' t \<and> job t' = job t \<and> timer t' = timer t \<and> variant t' = variant t
         \<and> duration t' = duration t \<and> at t' = at t \<and> days t' = days t
         \<and> months t' = months t \<and> on t' = on t \<and> randMin t' = randMin t
         \<and> randMax t' = randMax t \<and> blocking t' = blocking t
         \<and> times' t' = (if 0 < times' t then times' t - 1 else times' t)"
  unfolding next_result_task[OF assms] by (simp add: decremented_fields)

theorem next_frame_witness:
  "next' (Time 5 UTC) 0 ((NewTask ())\<lparr>variant := every, duration := 7, times' := 3\<rparr>)
     = Inr (7, True, (NewTask ())\<lparr>variant := every, duration := 7, times' := 2\<rparr>)
   \<and> times' ((NewTask ())\<lparr>variant := every, duration := 7, times' := 2\<rparr>) = 3 - 1
   \<and> blocking ((NewTask ())\<lparr>variant := every, duration := 7, times' := 2\<rparr>)
       = blocking ((NewTask ())\<lparr>variant := every, duration := 7, times' := 3\<rparr>)"
proof -
  have h: "next' (Time 5 UTC) 0 ((NewTask ())\<lparr>variant := every, duration := 7, times' := 3\<rparr>)
     = Inr (7, True, (NewTask ())\<lparr>variant := every, duration := 7, times' := 2\<rparr>)"
    by (simp add: next'_def NewTask_def Sub_def Time_Add_def minDuration_def maxDuration_def)
  show ?thesis using h next_frame[OF h] by simp
qed

section \<open>The recurrence evaluator: daily tasks\<close>

lemma next_daily_fixed:
  assumes "times' t \<noteq> 0" "variant t = daily" "fixed_zone (location now)"
  shows "next' now r t =
           Inr (if clock (at t) < ToD now then 24 * hour_ns - (ToD now - clock (at t))
                else clock (at t) - ToD now, True, decremented t)"
proof -
  define off where "off = first_offset (location now) * second_ns"
  define D where "D = days_of (abs_ns now) * day_ns"
  let ?today = "Date (Year now) (Month now) (Day now)
                  (Hour (at t)) (Minute (at t)) (Second (at t)) 0 (location now)"
  have td: "?today = Time (D + clock (at t) - off) (location now)"
    unfolding D_def off_def by (rule today_at[OF assms(3)])
  have nw: "since_epoch now = D + ToD now - off"
    unfolding D_def off_def by (rule since_epoch_fixed[OF assms(3)])
  have tb: "0 \<le> ToD now" "ToD now < day_ns" using ToD_split[of now] by simp_all
  have cb: "0 \<le> clock (at t)" "clock (at t) < day_ns" using clock_range[of "at t"] by simp_all
  have d: "24 * hour_ns = day_ns" by (simp add: day_ns_def)
  show ?thesis
  proof (cases "clock (at t) < ToD now")
    case True
    then have b: "Before ?today now" unfolding td Before_def nw by simp
    have "Sub (Time_Add ?today (24 * hour_ns)) now = day_ns - (ToD now - clock (at t))"
    proof -
      have e: "since_epoch (Time_Add ?today (24 * hour_ns)) - since_epoch now
                 = day_ns - (ToD now - clock (at t))"
        unfolding td nw Time_Add_def d by simp
      have "Sub (Time_Add ?today (24 * hour_ns)) now
              = since_epoch (Time_Add ?today (24 * hour_ns)) - since_epoch now"
        by (rule Sub_small) (use e True tb cb in \<open>simp_all add: day_ns_val\<close>)
      with e show ?thesis by simp
    qed
    then show ?thesis unfolding next_daily[OF assms(1,2)] using b True d by simp
  next
    case False
    then have b: "\<not> Before ?today now" unfolding td Before_def nw by simp
    have "Sub ?today now = clock (at t) - ToD now"
    proof -
      have e: "since_epoch ?today - since_epoch now = clock (at t) - ToD now"
        unfolding td nw by simp
      have "Sub ?today now = since_epoch ?today - since_epoch now"
        by (rule Sub_small) (use e False tb cb in \<open>simp_all add: day_ns_val\<close>)
      with e show ?thesis by simp
    qed
    then show ?thesis unfolding next_daily[OF assms(1,2)] using b False by simp
  qed
qed

text \<open>
  C2, as amended. In a location whose offset from UTC does not change, for a daily task with
  \<open>times \<noteq> 0\<close>: if the time of day \<open>at\<close> is later than or equal to the time of day of
  \<open>now\<close>, \<open>next\<close> returns the delay \<open>at - now.ToD\<close> and keeps the task, so the task fires
  today (at once when the two are equal); if \<open>at\<close> is strictly earlier than the time of day
  of \<open>now\<close>, the delay is 24 hours less \<open>now.ToD - at\<close>, which is strictly between 0 and 24
  hours: the task fires tomorrow at \<open>at\<close>.
\<close>

theorem daily_delay:
  assumes "variant t = daily" and "times' t \<noteq> 0" and "fixed_zone (location now)"
  shows "(ToD now \<le> clock (at t) \<longrightarrow>
            next' now r t = Inr (clock (at t) - ToD now, True, decremented t))
       \<and> (clock (at t) < ToD now \<longrightarrow>
            next' now r t = Inr (24 * hour_ns - (ToD now - clock (at t)), True, decremented t)
            \<and> 0 < 24 * hour_ns - (ToD now - clock (at t))
            \<and> 24 * hour_ns - (ToD now - clock (at t)) < 24 * hour_ns)"
proof -
  have tb: "ToD now < day_ns" using ToD_split[of now] by simp
  have cb: "0 \<le> clock (at t)" using clock_range[of "at t"] by simp
  have d: "24 * hour_ns = day_ns" by (simp add: day_ns_def)
  show ?thesis
    unfolding next_daily_fixed[OF assms(2,1,3)] d using tb cb by auto
qed

lemma utc_fixed: "fixed_zone UTC" "fixed_zone (FixedZone offset)"
  by (simp_all add: fixed_zone_def UTC_def FixedZone_def)

lemma location_Date: "location (Date y m d h mi s n l) = l"
  by (simp add: Date_def Let_def split: prod.splits)

lemma ToD_Date_fixed:
  assumes "fixed_zone l" "0 \<le> h" "h \<le> 23" "0 \<le> mi" "mi \<le> 59" "0 \<le> s" "s \<le> 59"
  shows "ToD (Date y m d h mi s 0 l) = h * hour_ns + mi * minute_ns + s * second_ns"
    and "clock (Date y m d h mi s 0 l) = h * hour_ns + mi * minute_ns + s * second_ns"
proof -
  define c where "c = h * hour_ns + mi * minute_ns + s * second_ns"
  define dd where "dd = civil_date y m d 0 0 0 0"
  have a: "abs_ns (Date y m d h mi s 0 l) = dd + c"
    unfolding abs_ns_Date_fixed[OF assms(1)] dd_def c_def by (simp add: civil_date_def Let_def)
  have cb: "0 \<le> c" "c < day_ns" "c \<le> 23 * hour_ns + 59 * minute_ns + 59 * second_ns"
    using assms(2-7) unfolding c_def by (simp_all add: duration_defs)
  define q where "q = daysSinceEpoch (y + (m - 1) div 12) + daysBefore ((m - 1) mod 12 + 1 - 1)
      + (if isLeap (y + (m - 1) div 12) \<and> (m - 1) mod 12 + 1 \<ge> 3 then 1 else 0) + (d - 1)"
  have q: "dd = q * day_ns" unfolding dd_def q_def by (simp add: civil_date_def Let_def)
  have m: "(dd + c) mod day_ns = c" unfolding q using cb by simp
  show "ToD (Date y m d h mi s 0 l) = h * hour_ns + mi * minute_ns + s * second_ns"
    using m unfolding ToD_def civil_tod_def a c_def by simp
  have hh: "c div hour_ns = h"
    by (rule div_range) (use assms(2-7) in \<open>simp_all add: c_def duration_defs\<close>)
  have mh: "c mod hour_ns = mi * minute_ns + s * second_ns"
  proof -
    have "c = h * hour_ns + (mi * minute_ns + s * second_ns)" unfolding c_def by simp
    then have "c mod hour_ns = (mi * minute_ns + s * second_ns) mod hour_ns" by simp
    also have "\<dots> = mi * minute_ns + s * second_ns"
      using assms(4-7) by (intro mod_pos_pos_trivial) (simp_all add: duration_defs)
    finally show ?thesis .
  qed
  have mm: "(mi * minute_ns + s * second_ns) div minute_ns = mi"
    by (rule div_range) (use assms(4-7) in \<open>simp_all add: duration_defs\<close>)
  have hq: "hour_ns = 3600 * second_ns" "day_ns = 86400 * second_ns" "minute_ns = 60 * second_ns"
    by (simp_all add: duration_defs)
  have dm: "(dd + c) mod hour_ns = c mod hour_ns"
  proof -
    have "dd + c = c + (q * 24) * hour_ns" unfolding q by (simp add: day_ns_def)
    then show ?thesis by (metis mod_mult_self1)
  qed
  have dmi: "(dd + c) mod minute_ns = c mod minute_ns"
  proof -
    have "dd + c = c + (q * 1440) * minute_ns" unfolding q by (simp add: day_ns_def hour_ns_def)
    then show ?thesis by (metis mod_mult_self1)
  qed
  have sm: "c mod minute_ns = s * second_ns"
  proof -
    have "c = s * second_ns + (h * 60 + mi) * minute_ns" unfolding c_def by (simp add: hour_ns_def algebra_simps)
    then have "c mod minute_ns = (s * second_ns) mod minute_ns" by (metis mod_mult_self1)
    also have "\<dots> = s * second_ns"
      using assms(6,7) by (intro mod_pos_pos_trivial) (simp_all add: duration_defs)
    finally show ?thesis .
  qed
  have ss: "(s * second_ns) div second_ns = s" by (simp add: second_ns_def)
  show "clock (Date y m d h mi s 0 l) = h * hour_ns + mi * minute_ns + s * second_ns"
    unfolding clock_civil civil_clock_def civil_hour_def civil_minute_def civil_second_def a m
      dm dmi mh sm hh mm ss by simp
qed

lemma noon_utc:
  "Hour (Date 0 0 0 12 0 0 0 UTC) = 12" "Minute (Date 0 0 0 12 0 0 0 UTC) = 0"
  "Second (Date 0 0 0 12 0 0 0 UTC) = 0" "clock (Date 0 0 0 12 0 0 0 UTC) = 12 * hour_ns"
  by (simp_all add: abs_ns_Date_fixed utc_fixed clock_defs date_defs)

theorem daily_delay_witness:
  "variant ((NewTask ())\<lparr>variant := daily, at := Date 0 0 0 12 0 0 0 UTC\<rparr>) = daily
   \<and> times' ((NewTask ())\<lparr>variant := daily, at := Date 0 0 0 12 0 0 0 UTC\<rparr>) \<noteq> 0
   \<and> fixed_zone (FixedZone (- 18000))
   \<and> ToD (Date 2024 3 15 10 0 0 0 (FixedZone (- 18000)))
       \<le> clock (at ((NewTask ())\<lparr>variant := daily, at := Date 0 0 0 12 0 0 0 UTC\<rparr>))
   \<and> next' (Date 2024 3 15 10 0 0 0 (FixedZone (- 18000))) 0
        ((NewTask ())\<lparr>variant := daily, at := Date 0 0 0 12 0 0 0 UTC\<rparr>)
       = Inr (2 * hour_ns, True, (NewTask ())\<lparr>variant := daily, at := Date 0 0 0 12 0 0 0 UTC\<rparr>)
   \<and> clock (at ((NewTask ())\<lparr>variant := daily, at := Date 0 0 0 12 0 0 0 UTC\<rparr>))
       < ToD (Date 2024 3 15 13 0 0 0 (FixedZone (- 18000)))
   \<and> next' (Date 2024 3 15 13 0 0 0 (FixedZone (- 18000))) 0
        ((NewTask ())\<lparr>variant := daily, at := Date 0 0 0 12 0 0 0 UTC\<rparr>)
       = Inr (23 * hour_ns, True, (NewTask ())\<lparr>variant := daily, at := Date 0 0 0 12 0 0 0 UTC\<rparr>)"
proof -
  let ?t = "(NewTask ())\<lparr>variant := daily, at := Date 0 0 0 12 0 0 0 UTC\<rparr>"
  let ?l = "FixedZone (- 18000)"
  have h: "variant ?t = daily" "times' ?t \<noteq> 0" by (simp_all add: NewTask_def)
  have f: "fixed_zone ?l" by (rule utc_fixed)
  have l1: "fixed_zone (location (Date 2024 3 15 10 0 0 0 ?l))"
    and l2: "fixed_zone (location (Date 2024 3 15 13 0 0 0 ?l))"
    by (simp_all add: location_Date f)
  have t1: "ToD (Date 2024 3 15 10 0 0 0 ?l) = 10 * hour_ns"
    and t2: "ToD (Date 2024 3 15 13 0 0 0 ?l) = 13 * hour_ns"
    by (simp_all add: ToD_Date_fixed f)
  have c: "clock (at ?t) = 12 * hour_ns" by (simp add: noon_utc)
  have d: "decremented ?t = ?t" by (simp add: decremented_def NewTask_def)
  show ?thesis
    using daily_delay[OF h l1, of 0] daily_delay[OF h l2, of 0] h f t1 t2 c d
    by (simp add: hour_ns_def minute_ns_def second_ns_def)
qed

lemma New_York_spring:
  "Date 2024 3 10 1 0 0 0 New_York = Time (civil_date 2024 3 10 6 0 0 0) New_York"
  "Date 2024 3 10 12 0 0 0 New_York = Time (civil_date 2024 3 10 16 0 0 0) New_York"
  "abs_ns (Time (civil_date 2024 3 10 6 0 0 0) New_York) = civil_date 2024 3 10 1 0 0 0"
  by (simp_all add: Date_def abs_ns_def zone_lookup_def New_York_def date_defs duration_defs)

lemma New_York_at:
  "abs_ns (Date 0 0 0 h mi 0 0 New_York) = civil_date 0 0 0 h mi 0 0" if "0 \<le> h" "h \<le> 23" "0 \<le> mi" "mi \<le> 59"
proof -
  have a: "civil_date 0 0 0 h mi 0 0 div second_ns < civil_date 2024 3 10 7 0 0 0 div second_ns"
    using that by (simp add: date_defs duration_defs)
  have b: "(civil_date 0 0 0 h mi 0 0 div second_ns) + 18000 < civil_date 2024 3 10 7 0 0 0 div second_ns"
    using that by (simp add: date_defs duration_defs)
  have d: "Date 0 0 0 h mi 0 0 New_York = Time (civil_date 0 0 0 h mi 0 0 + 18000 * second_ns) New_York"
    using a b by (simp add: Date_def zone_lookup_def New_York_def Let_def)
  have c: "(civil_date 0 0 0 h mi 0 0 + 18000 * second_ns) div second_ns
             = civil_date 0 0 0 h mi 0 0 div second_ns + 18000"
    by (simp add: second_ns_def)
  show ?thesis unfolding d using b by (simp add: abs_ns_def zone_lookup_def New_York_def c)
qed

lemma civil_clock_of_date:
  assumes "0 \<le> h" "h \<le> 23" "0 \<le> mi" "mi \<le> 59" "0 \<le> s" "s \<le> 59"
  shows "civil_hour (civil_date y m d h mi s 0) = h" "civil_minute (civil_date y m d h mi s 0) = mi"
    "civil_second (civil_date y m d h mi s 0) = s"
    "civil_tod (civil_date y m d h mi s 0) = h * hour_ns + mi * minute_ns + s * second_ns"
proof -
  have a: "abs_ns (Date y m d h mi s 0 UTC) = civil_date y m d h mi s 0"
    by (simp add: abs_ns_Date_fixed utc_fixed)
  have t: "ToD (Date y m d h mi s 0 UTC) = h * hour_ns + mi * minute_ns + s * second_ns"
    by (rule ToD_Date_fixed(1)[OF utc_fixed(1) assms])
  then show td: "civil_tod (civil_date y m d h mi s 0) = h * hour_ns + mi * minute_ns + s * second_ns"
    unfolding ToD_def a .
  define c where "c = h * hour_ns + mi * minute_ns + s * second_ns"
  have hh: "c div hour_ns = h"
    by (rule div_range) (use assms in \<open>simp_all add: c_def duration_defs\<close>)
  show "civil_hour (civil_date y m d h mi s 0) = h"
    using td hh unfolding civil_hour_def civil_tod_def c_def by simp
  have hm: "civil_tod (civil_date y m d h mi s 0) mod hour_ns = civil_date y m d h mi s 0 mod hour_ns"
    unfolding civil_tod_def by (rule mod_mod_cancel) (simp add: day_ns_def)
  have mh: "c mod hour_ns = mi * minute_ns + s * second_ns"
  proof -
    have "c = h * hour_ns + (mi * minute_ns + s * second_ns)" unfolding c_def by simp
    then have "c mod hour_ns = (mi * minute_ns + s * second_ns) mod hour_ns" by simp
    also have "\<dots> = mi * minute_ns + s * second_ns"
      using assms by (intro mod_pos_pos_trivial) (simp_all add: duration_defs)
    finally show ?thesis .
  qed
  have mm: "(mi * minute_ns + s * second_ns) div minute_ns = mi"
    by (rule div_range) (use assms in \<open>simp_all add: duration_defs\<close>)
  show "civil_minute (civil_date y m d h mi s 0) = mi"
    using hm td mh mm unfolding civil_minute_def c_def by simp
  have sm0: "civil_tod (civil_date y m d h mi s 0) mod minute_ns = civil_date y m d h mi s 0 mod minute_ns"
    unfolding civil_tod_def by (rule mod_mod_cancel) (simp add: day_ns_def hour_ns_def)
  have sm: "c mod minute_ns = s * second_ns"
  proof -
    have "c = s * second_ns + (h * 60 + mi) * minute_ns"
      unfolding c_def by (simp add: hour_ns_def algebra_simps)
    then have "c mod minute_ns = (s * second_ns) mod minute_ns" by (metis mod_mult_self1)
    also have "\<dots> = s * second_ns"
      using assms by (intro mod_pos_pos_trivial) (simp_all add: duration_defs)
    finally show ?thesis .
  qed
  show "civil_second (civil_date y m d h mi s 0) = s"
    using sm0 td sm unfolding civil_second_def c_def by (simp add: second_ns_def)
qed

lemma civil_fields_of_date:
  assumes "1 \<le> m" "m \<le> 12" "1 \<le> d" "d \<le> daysIn m y"
    "0 \<le> h" "h \<le> 23" "0 \<le> mi" "mi \<le> 59" "0 \<le> s" "s \<le> 59"
  shows "civil_year (civil_date y m d h mi s 0) = y" "civil_month (civil_date y m d h mi s 0) = m"
    "civil_day (civil_date y m d h mi s 0) = d"
proof -
  have "0 \<le> h * hour_ns + mi * minute_ns + s * second_ns + 0"
    "h * hour_ns + mi * minute_ns + s * second_ns + 0 < day_ns"
    using assms(5-10) by (simp_all add: duration_defs)
  from civil_of_Date[OF assms(1-4) this]
  show "civil_year (civil_date y m d h mi s 0) = y" "civil_month (civil_date y m d h mi s 0) = m"
    "civil_day (civil_date y m d h mi s 0) = d" by simp_all
qed

text \<open>
  At \<open>at = now.ToD\<close> the delay is 0, not a delay in the interval from 0 (exclusive) to 24
  hours: the test \<^verbatim>\<open>nextRun.Before(now)\<close> is strict. And in New York on March 10, 2024,
  at 01:00, daylight saving time starting that night, a task with \<open>at\<close> = 12:00 gets the
  delay of 10 hours that lie between the two instants, where \<open>at - now.ToD\<close> is 11 hours.
\<close>

theorem daily_equal_counterexample:
  "clock (at ((NewTask ())\<lparr>variant := daily, at := Date 0 0 0 12 0 0 0 UTC\<rparr>))
     \<le> ToD (Date 2024 3 15 12 0 0 0 UTC)
   \<and> next' (Date 2024 3 15 12 0 0 0 UTC) 0 ((NewTask ())\<lparr>variant := daily, at := Date 0 0 0 12 0 0 0 UTC\<rparr>)
       = Inr (0, True, (NewTask ())\<lparr>variant := daily, at := Date 0 0 0 12 0 0 0 UTC\<rparr>)
   \<and> ToD (Date 2024 3 10 1 0 0 0 New_York)
       < clock (at ((NewTask ())\<lparr>variant := daily, at := Date 0 0 0 12 0 0 0 New_York\<rparr>))
   \<and> clock (at ((NewTask ())\<lparr>variant := daily, at := Date 0 0 0 12 0 0 0 New_York\<rparr>))
       - ToD (Date 2024 3 10 1 0 0 0 New_York) = 11 * hour_ns
   \<and> next' (Date 2024 3 10 1 0 0 0 New_York) 0
        ((NewTask ())\<lparr>variant := daily, at := Date 0 0 0 12 0 0 0 New_York\<rparr>)
       = Inr (10 * hour_ns, True, (NewTask ())\<lparr>variant := daily, at := Date 0 0 0 12 0 0 0 New_York\<rparr>)"
proof -
  let ?t = "(NewTask ())\<lparr>variant := daily, at := Date 0 0 0 12 0 0 0 UTC\<rparr>"
  let ?now = "Date 2024 3 15 12 0 0 0 UTC"
  have h: "times' ?t \<noteq> 0" "variant ?t = daily" by (simp_all add: NewTask_def)
  have l: "fixed_zone (location ?now)" by (simp add: location_Date utc_fixed)
  have t: "ToD ?now = 12 * hour_ns" by (simp add: ToD_Date_fixed utc_fixed)
  have c: "clock (at ?t) = 12 * hour_ns" by (simp add: noon_utc)
  have d: "decremented ?t = ?t" by (simp add: decremented_def NewTask_def)
  have first: "clock (at ?t) \<le> ToD ?now \<and> next' ?now 0 ?t = Inr (0, True, ?t)"
    using next_daily_fixed[OF h l, of 0] t c d by simp
  let ?u = "(NewTask ())\<lparr>variant := daily, at := Date 0 0 0 12 0 0 0 New_York\<rparr>"
  let ?ny = "Date 2024 3 10 1 0 0 0 New_York"
  have hu: "times' ?u \<noteq> 0" "variant ?u = daily" by (simp_all add: NewTask_def)
  have du: "decremented ?u = ?u" by (simp add: decremented_def NewTask_def)
  have an: "abs_ns ?ny = civil_date 2024 3 10 1 0 0 0" by (simp add: New_York_spring)
  have di: "(10::int) \<le> daysIn 3 2024" by (simp add: daysIn_def daysBefore_def)
  have fy: "Year ?ny = 2024" "Month ?ny = 3" "Day ?ny = 10"
    unfolding Year_def Month_def Day_def an using di by (simp_all add: civil_fields_of_date)
  have tn: "ToD ?ny = 1 * hour_ns"
    unfolding ToD_def an by (simp add: civil_clock_of_date)
  have aa: "abs_ns (at ?u) = civil_date 0 0 0 12 0 0 0" by (simp add: New_York_at)
  have fa: "Hour (at ?u) = 12" "Minute (at ?u) = 0" "Second (at ?u) = 0"
    unfolding Hour_def Minute_def Second_def aa by (simp_all add: civil_clock_of_date)
  have cu: "clock (at ?u) = 12 * hour_ns" unfolding clock_def fa by simp
  have ln: "location ?ny = New_York" by (rule location_Date)
  have nb: "\<not> Before (Date 2024 3 10 12 0 0 0 New_York) ?ny"
    unfolding New_York_spring Before_def by (simp add: date_defs duration_defs)
  have sb: "Sub (Date 2024 3 10 12 0 0 0 New_York) ?ny = 10 * hour_ns"
    unfolding New_York_spring Sub_def
    by (simp add: date_defs duration_defs minDuration_def maxDuration_def)
  have second: "next' ?ny 0 ?u = Inr (10 * hour_ns, True, ?u)"
    unfolding next_daily[OF hu] fy fa ln using nb sb du by simp
  show ?thesis using first second tn cu by (simp add: hour_ns_def minute_ns_def second_ns_def)
qed

section \<open>The recurrence evaluator: the counter and the result\<close>

lemma Time_Add_zero: "Time_Add t 0 = t"
  by (simp add: Time_Add_def)

lemma weekly_scan_None:
  "weekly_scan n ds t0 = None
   \<longleftrightarrow> (\<forall>k<n. \<not> lookup ds (Weekday (Time_Add t0 (int k * (24 * hour_ns)))))"
proof (induction n arbitrary: t0)
  case 0
  then show ?case by simp
next
  case (Suc n)
  have "(\<forall>k<Suc n. \<not> lookup ds (Weekday (Time_Add t0 (int k * (24 * hour_ns)))))
        \<longleftrightarrow> \<not> lookup ds (Weekday t0)
            \<and> (\<forall>k<n. \<not> lookup ds (Weekday (Time_Add (Time_Add t0 (24 * hour_ns)) (int k * (24 * hour_ns)))))"
    by (auto simp: less_Suc_eq_0_disj Time_Add_Add Time_Add_zero algebra_simps)
  then show ?case using Suc.IH[of "Time_Add t0 (24 * hour_ns)"] by simp
qed

lemma weekly_candidates_ex:
  "list_ex (\<lambda>c. lookup ds (Weekday c)) (weekly_candidates now t)
   \<longleftrightarrow> weekly_scan 7 ds
         (if After (Date (Year now) (Month now) (Day now)
                      (Hour (at t)) (Minute (at t)) (Second (at t)) 0 (location now)) now
          then Date (Year now) (Month now) (Day now)
                 (Hour (at t)) (Minute (at t)) (Second (at t)) 0 (location now)
          else Time_Add (Date (Year now) (Month now) (Day now)
                           (Hour (at t)) (Minute (at t)) (Second (at t)) 0 (location now))
                 (24 * hour_ns)) \<noteq> None"
  unfolding weekly_scan_None weekly_candidates_def Let_def list_ex_iff by auto

lemma months_ex: "list_ex P [1..12] \<longleftrightarrow> (\<exists>m \<in> {1..12}. P m)"
  by (simp add: list_ex_iff)

lemma monthly_start_range:
  "\<exists>y m. (if c then month_succ (Year now, Month now) else (Year now, Month now)) = (y, m)
         \<and> 1 \<le> m \<and> m \<le> 12"
  using civil_of_days[of "abs_ns now"] by (auto simp: month_succ_def Year_def Month_def)

text \<open>
  C5. For every task: if \<open>times\<close> is 0, \<open>next\<close> returns \<open>keep = false\<close> and leaves the
  task as it is. Otherwise the call gets past the counter: it panics inside
  \<^verbatim>\<open>rand.Int63n\<close> exactly when the task is a random task whose 64-bit bound
  \<open>randMax - randMin\<close> is not positive, and in every other case it returns; the task it
  leaves has \<open>times\<close> decremented by exactly one if it was positive and unchanged if it was
  not (so \<open>-1\<close> stays), and \<open>keep\<close> is true unless the scan of the variant finds no next
  occurrence: for a weekly task, none of the seven instants visited falls on a weekday of
  the map; for a monthly task, the map holds none of the twelve months, or is nil, or the
  day of the month is not one of 1 to 31.
\<close>

theorem next_times:
  "(times' t = 0 \<longrightarrow> next' now r t = Inr (0, False, t))
   \<and> (times' t \<noteq> 0 \<longrightarrow>
        (if variant t = random' \<and> int64 (randMax t - randMin t) \<le> 0
         then next' now r t = Inl (Panic ''invalid argument to Int63n'')
         else (\<exists>d. next' now r t = Inr (d, has_occurrence now t, decremented t))))"
proof (intro conjI impI)
  assume "times' t = 0" then show "next' now r t = Inr (0, False, t)" by (rule next_zero)
next
  assume nz: "times' t \<noteq> 0"
  show "if variant t = random' \<and> int64 (randMax t - randMin t) \<le> 0
        then next' now r t = Inl (Panic ''invalid argument to Int63n'')
        else (\<exists>d. next' now r t = Inr (d, has_occurrence now t, decremented t))"
  proof (cases "variant t")
    case once
    then show ?thesis using next_once[OF nz once] by (simp add: has_occurrence_def)
  next
    case every
    then show ?thesis using next_every[OF nz every] by (simp add: has_occurrence_def)
  next
    case random'
    then show ?thesis using next_random[OF nz random'] by (simp add: has_occurrence_def)
  next
    case daily
    then show ?thesis using next_daily[OF nz daily] by (simp add: has_occurrence_def)
  next
    case weekly
    let ?s = "if After (Date (Year now) (Month now) (Day now)
                      (Hour (at t)) (Minute (at t)) (Second (at t)) 0 (location now)) now
          then Date (Year now) (Month now) (Day now)
                 (Hour (at t)) (Minute (at t)) (Second (at t)) 0 (location now)
          else Time_Add (Date (Year now) (Month now) (Day now)
                           (Hour (at t)) (Minute (at t)) (Second (at t)) 0 (location now))
                 (24 * hour_ns)"
    have ho: "has_occurrence now t \<longleftrightarrow> days t \<noteq> None \<and> weekly_scan 7 (days t) ?s \<noteq> None"
      using weekly by (simp add: has_occurrence_def weekly_candidates_ex)
    show ?thesis
    proof (cases "has_occurrence now t")
      case True
      then obtain x where "weekly_scan 7 (days t) ?s = Some x" and "days t \<noteq> None"
        unfolding ho by blast
      then show ?thesis unfolding next_weekly[OF nz weekly] using True weekly by simp
    next
      case False
      then have "days t = None \<or> weekly_scan 7 (days t) ?s = None" unfolding ho by blast
      then show ?thesis unfolding next_weekly[OF nz weekly] using False weekly by auto
    qed
  next
    case monthly
    let ?c = "Day now > on t \<or> (Day now = on t \<and>
                After now (Date (Year now) (Month now) (on t)
                             (Hour (at t)) (Minute (at t)) (Second (at t)) 0 (location now)))"
    obtain y m where ym: "(if ?c then month_succ (Year now, Month now) else (Year now, Month now)) = (y, m)"
      and r: "1 \<le> m" "m \<le> 12"
      using monthly_start_range[of ?c now] by blast
    note sc = monthly_scan_12[OF r, of "months t" y]
    have ho: "has_occurrence now t \<longleftrightarrow> months t \<noteq> None \<and> 0 < on t \<and> on t \<le> 31
                \<and> monthly_scan 12 (months t) (y, m) \<noteq> None"
      using monthly unfolding sc by (auto simp add: has_occurrence_def months_ex)
    show ?thesis
    proof (cases "has_occurrence now t")
      case True
      then obtain y' m' where "monthly_scan 12 (months t) (y, m) = Some (y', m')"
        and "months t \<noteq> None" "0 < on t" "on t \<le> 31"
        unfolding ho by fastforce
      then show ?thesis unfolding next_monthly[OF nz monthly] ym using True monthly by simp
    next
      case False
      then have "months t = None \<or> on t \<le> 0 \<or> on t > 31 \<or> monthly_scan 12 (months t) (y, m) = None"
        unfolding ho by auto
      then show ?thesis unfolding next_monthly[OF nz monthly] ym using False monthly by auto
    qed
  qed
qed

section \<open>The recurrence evaluator: weekly tasks\<close>

lemma weekly_scan_Some:
  assumes "k < n" "lookup ds (Weekday (Time_Add t0 (int k * (24 * hour_ns))))"
    "\<forall>j<k. \<not> lookup ds (Weekday (Time_Add t0 (int j * (24 * hour_ns))))"
  shows "weekly_scan n ds t0 = Some (Time_Add t0 (int k * (24 * hour_ns)))"
  using assms
proof (induction n arbitrary: t0 k)
  case 0
  then show ?case by simp
next
  case (Suc n)
  show ?case
  proof (cases k)
    case 0
    then show ?thesis using Suc.prems by (simp add: Time_Add_zero)
  next
    case (Suc k')
    have n0: "\<not> lookup ds (Weekday t0)" using Suc.prems(3) Suc by (force simp: Time_Add_zero)
    have a: "k' < n" using Suc.prems(1) Suc by simp
    have e: "\<And>j. Time_Add (Time_Add t0 (24 * hour_ns)) (int j * (24 * hour_ns))
                  = Time_Add t0 (int (Suc j) * (24 * hour_ns))"
      by (simp add: Time_Add_Add algebra_simps)
    have b: "lookup ds (Weekday (Time_Add (Time_Add t0 (24 * hour_ns)) (int k' * (24 * hour_ns))))"
      unfolding e using Suc.prems(2) Suc by simp
    have c: "\<forall>j<k'. \<not> lookup ds (Weekday (Time_Add (Time_Add t0 (24 * hour_ns)) (int j * (24 * hour_ns))))"
      unfolding e using Suc.prems(3) Suc by auto
    have "weekly_scan n ds (Time_Add t0 (24 * hour_ns))
            = Some (Time_Add (Time_Add t0 (24 * hour_ns)) (int k' * (24 * hour_ns)))"
      by (rule Suc.IH[OF a b c])
    then show ?thesis using n0 Suc unfolding e by simp
  qed
qed

lemma Weekday_Add_fixed:
  assumes "fixed_zone (location t)"
  shows "Weekday (Time_Add t (int k * (24 * hour_ns))) = Weekday t \<longleftrightarrow> k mod 7 = 0"
proof -
  have "abs_ns (Time_Add t (int k * (24 * hour_ns))) = abs_ns t + int k * day_ns"
    unfolding abs_ns_Add_fixed[OF assms] by (simp add: day_ns_def)
  then show ?thesis unfolding Weekday_def by (simp add: Weekday_shift)
qed

lemma next_weekly_fixed:
  assumes "times' t \<noteq> 0" "variant t = weekly" "fixed_zone (location now)"
    and "\<forall>w. lookup (days t) w \<longleftrightarrow> w = Weekday now"
  shows "next' now r t =
           Inr (if ToD now < clock (at t) then clock (at t) - ToD now
                else 7 * (24 * hour_ns) - (ToD now - clock (at t)), True, decremented t)"
proof -
  define off where "off = first_offset (location now) * second_ns"
  define D where "D = days_of (abs_ns now) * day_ns"
  let ?today = "Date (Year now) (Month now) (Day now)
                  (Hour (at t)) (Minute (at t)) (Second (at t)) 0 (location now)"
  have td: "?today = Time (D + clock (at t) - off) (location now)"
    unfolding D_def off_def by (rule today_at[OF assms(3)])
  have nw: "since_epoch now = D + ToD now - off"
    unfolding D_def off_def by (rule since_epoch_fixed[OF assms(3)])
  have tb: "0 \<le> ToD now" "ToD now < day_ns" using ToD_split[of now] by simp_all
  have cb: "0 \<le> clock (at t)" "clock (at t) < day_ns" using clock_range[of "at t"] by simp_all
  have d: "24 * hour_ns = day_ns" by (simp add: day_ns_def)
  have "lookup (days t) (Weekday now)" using assms(4) by simp
  then have dn: "days t \<noteq> None" by (cases "days t") (simp_all add: lookup_def)
  have lt: "location ?today = location now" unfolding td by simp
  have ft: "fixed_zone (location ?today)" unfolding lt by (rule assms(3))
  have wt: "Weekday ?today = Weekday now"
  proof -
    have "abs_ns ?today = days_of (abs_ns now) * day_ns + clock (at t)"
      unfolding td D_def off_def using assms(3) by (simp add: abs_ns_fixed)
    then show ?thesis unfolding Weekday_def civil_weekday_def by (simp add: days_of_same_day cb)
  qed
  show ?thesis
  proof (cases "ToD now < clock (at t)")
    case True
    then have af: "After ?today now" unfolding td After_def nw by simp
    have "weekly_scan 7 (days t) ?today = Some (Time_Add ?today (int 0 * (24 * hour_ns)))"
      by (rule weekly_scan_Some) (use assms(4) wt in \<open>simp_all add: Time_Add_zero\<close>)
    then have sc: "weekly_scan 7 (days t) ?today = Some ?today" by (simp add: Time_Add_zero)
    have "Sub ?today now = clock (at t) - ToD now"
    proof -
      have e: "since_epoch ?today - since_epoch now = clock (at t) - ToD now"
        unfolding td nw by simp
      have "Sub ?today now = since_epoch ?today - since_epoch now"
        by (rule Sub_small) (use e True tb cb in \<open>simp_all add: day_ns_val\<close>)
      with e show ?thesis by simp
    qed
    then show ?thesis unfolding next_weekly[OF assms(1,2)] using af sc dn True by simp
  next
    case False
    then have af: "\<not> After ?today now" unfolding td After_def nw by simp
    let ?first = "Time_Add ?today (24 * hour_ns)"
    have ff: "\<And>j. Time_Add ?first (int j * (24 * hour_ns)) = Time_Add ?today (int (Suc j) * (24 * hour_ns))"
      by (simp add: Time_Add_Add algebra_simps)
    have "weekly_scan 7 (days t) ?first = Some (Time_Add ?first (int 6 * (24 * hour_ns)))"
    proof (rule weekly_scan_Some)
      show "(6::nat) < 7" by simp
      have "Weekday (Time_Add ?today (int (Suc 6) * (24 * hour_ns))) = Weekday ?today"
        unfolding Weekday_Add_fixed[OF ft] by simp
      then show "lookup (days t) (Weekday (Time_Add ?first (int 6 * (24 * hour_ns))))"
        unfolding ff using assms(4) wt by simp
      show "\<forall>j<6. \<not> lookup (days t) (Weekday (Time_Add ?first (int j * (24 * hour_ns))))"
      proof (intro allI impI)
        fix j :: nat assume j: "j < 6"
        have "Weekday (Time_Add ?today (int (Suc j) * (24 * hour_ns))) \<noteq> Weekday ?today"
          unfolding Weekday_Add_fixed[OF ft] using j by presburger
        then show "\<not> lookup (days t) (Weekday (Time_Add ?first (int j * (24 * hour_ns))))"
          unfolding ff using assms(4) wt by simp
      qed
    qed
    then have sc: "weekly_scan 7 (days t) ?first = Some (Time_Add ?today (7 * (24 * hour_ns)))"
      unfolding ff by simp
    have "Sub (Time_Add ?today (7 * (24 * hour_ns))) now = 7 * day_ns - (ToD now - clock (at t))"
    proof -
      have e: "since_epoch (Time_Add ?today (7 * (24 * hour_ns))) - since_epoch now
                 = 7 * day_ns - (ToD now - clock (at t))"
        unfolding td nw Time_Add_def d by simp
      have "Sub (Time_Add ?today (7 * (24 * hour_ns))) now
              = since_epoch (Time_Add ?today (7 * (24 * hour_ns))) - since_epoch now"
        by (rule Sub_small) (use e False tb cb in \<open>simp_all add: day_ns_val\<close>)
      with e show ?thesis by simp
    qed
    then show ?thesis unfolding next_weekly[OF assms(1,2)] using af sc dn False d by simp
  qed
qed


lemma Weekday_Date_fixed:
  assumes "fixed_zone l" "0 \<le> h" "h \<le> 23" "0 \<le> mi" "mi \<le> 59" "0 \<le> s" "s \<le> 59"
  shows "Weekday (Date y m d h mi s 0 l) = civil_weekday (civil_date y m d 0 0 0 0)"
proof -
  define c where "c = h * hour_ns + mi * minute_ns + s * second_ns"
  define q where "q = daysSinceEpoch (y + (m - 1) div 12) + daysBefore ((m - 1) mod 12 + 1 - 1)
      + (if isLeap (y + (m - 1) div 12) \<and> (m - 1) mod 12 + 1 \<ge> 3 then 1 else 0) + (d - 1)"
  have q: "civil_date y m d 0 0 0 0 = q * day_ns" unfolding q_def by (simp add: civil_date_def Let_def)
  have a: "abs_ns (Date y m d h mi s 0 l) = q * day_ns + c"
    unfolding abs_ns_Date_fixed[OF assms(1)] q_def c_def by (simp add: civil_date_def Let_def)
  have cb: "0 \<le> c" "c < day_ns" using assms(2-7) unfolding c_def by (simp_all add: duration_defs)
  have "days_of (q * day_ns + c) = q"
    unfolding days_of_def by (rule div_range) (use cb in \<open>simp_all add: day_ns_val algebra_simps\<close>)
  moreover have "days_of (q * day_ns) = q" unfolding days_of_def by (simp add: day_ns_val)
  ultimately show ?thesis unfolding Weekday_def civil_weekday_def a q by simp
qed


lemma lookup_single: "lookup (Some [(k, True)]) w \<longleftrightarrow> w = k"
  by (simp add: lookup_def)

lemma New_York_sunday:
  "Weekday (Date 2024 3 3 23 30 0 0 New_York) = 0
   \<and> clock (at ((NewTask ())\<lparr>variant := weekly, days := Some [(0, True)],
                                 at := Date 0 0 0 23 30 0 0 New_York\<rparr>))
       = ToD (Date 2024 3 3 23 30 0 0 New_York)
   \<and> next' (Date 2024 3 3 23 30 0 0 New_York) 0
        ((NewTask ())\<lparr>variant := weekly, days := Some [(0, True)],
                        at := Date 0 0 0 23 30 0 0 New_York\<rparr>)
       = Inr (0, False, (NewTask ())\<lparr>variant := weekly, days := Some [(0, True)],
                                        at := Date 0 0 0 23 30 0 0 New_York\<rparr>)"
proof -
  let ?t = "(NewTask ())\<lparr>variant := weekly, days := Some [(0, True)],
                          at := Date 0 0 0 23 30 0 0 New_York\<rparr>"
  let ?now = "Date 2024 3 3 23 30 0 0 New_York"
  have h: "times' ?t \<noteq> 0" "variant ?t = weekly" by (simp_all add: NewTask_def)
  have d: "decremented ?t = ?t" by (simp add: decremented_def NewTask_def)
  have nw: "?now = Time (civil_date 2024 3 4 4 30 0 0) New_York"
    by (simp add: Date_def zone_lookup_def New_York_def date_defs duration_defs)
  have an: "abs_ns ?now = civil_date 2024 3 3 23 30 0 0"
    unfolding nw by (simp add: abs_ns_def zone_lookup_def New_York_def date_defs duration_defs)
  have di: "(3::int) \<le> daysIn 3 2024" by (simp add: daysIn_def daysBefore_def)
  have fy: "Year ?now = 2024" "Month ?now = 3" "Day ?now = 3"
    unfolding Year_def Month_def Day_def an using di by (simp_all add: civil_fields_of_date)
  have tn: "ToD ?now = 23 * hour_ns + 30 * minute_ns"
    unfolding ToD_def an by (simp add: civil_clock_of_date)
  have wn: "Weekday ?now = 0"
    unfolding Weekday_def an by (simp add: civil_weekday_def days_of_def date_defs duration_defs)
  have aa: "abs_ns (at ?t) = civil_date 0 0 0 23 30 0 0" by (simp add: New_York_at)
  have fa: "Hour (at ?t) = 23" "Minute (at ?t) = 30" "Second (at ?t) = 0"
    unfolding Hour_def Minute_def Second_def aa by (simp_all add: civil_clock_of_date)
  have cu: "clock (at ?t) = 23 * hour_ns + 30 * minute_ns" unfolding clock_def fa by simp
  have ln: "location ?now = New_York" by (rule location_Date)
  have na: "\<not> After ?now ?now" by (simp add: After_def)
  have sc: "weekly_scan 7 (Some [(0, True)]) (Time_Add ?now (24 * hour_ns)) = None"
    unfolding weekly_scan_None
  proof (intro allI impI)
    fix k :: nat assume "k < 7"
    then have "k = 0 \<or> k = 1 \<or> k = 2 \<or> k = 3 \<or> k = 4 \<or> k = 5 \<or> k = 6" by presburger
    then have "Weekday (Time_Add (Time_Add ?now (24 * hour_ns)) (int k * (24 * hour_ns))) \<noteq> 0"
      unfolding nw
      by (elim disjE)
        (simp_all add: Weekday_def civil_weekday_def days_of_def abs_ns_def Time_Add_def
          zone_lookup_def New_York_def date_defs duration_defs)
    then show "\<not> lookup (Some [(0, True)])
                   (Weekday (Time_Add (Time_Add ?now (24 * hour_ns)) (int k * (24 * hour_ns))))"
      by (simp add: lookup_single)
  qed
  have "next' ?now 0 ?t = Inr (0, False, ?t)"
    unfolding next_weekly[OF h] fy fa ln using na sc d by simp
  then show ?thesis using wn cu tn by simp
qed


theorem next_times_witness:
  "times' ((NewTask ())\<lparr>times' := 0\<rparr>) = 0
   \<and> next' (Time 5 UTC) 0 ((NewTask ())\<lparr>times' := 0\<rparr>) = Inr (0, False, (NewTask ())\<lparr>times' := 0\<rparr>)
   \<and> times' ((NewTask ())\<lparr>variant := every, duration := 7, times' := 3\<rparr>) \<noteq> 0
   \<and> (\<exists>d. next' (Time 5 UTC) 0 ((NewTask ())\<lparr>variant := every, duration := 7, times' := 3\<rparr>)
            = Inr (d, True, (NewTask ())\<lparr>variant := every, duration := 7, times' := 2\<rparr>))
   \<and> next' (Time 5 UTC) 0 ((NewTask ())\<lparr>variant := random', randMin := - (2 ^ 63), randMax := 1\<rparr>)
       = Inl (Panic ''invalid argument to Int63n'')
   \<and> (\<exists>d. next' (Date 2024 3 15 10 0 0 0 UTC) 0
             ((NewTask ())\<lparr>variant := weekly, days := Some [(5, True)], at := Date 0 0 0 12 0 0 0 UTC,
                             times' := 2\<rparr>)
            = Inr (d, True,
                   (NewTask ())\<lparr>variant := weekly, days := Some [(5, True)],
                                   at := Date 0 0 0 12 0 0 0 UTC, times' := 1\<rparr>))
   \<and> (\<exists>d. next' (Date 2024 3 3 23 30 0 0 New_York) 0
             ((NewTask ())\<lparr>variant := weekly, days := Some [(0, True)],
                             at := Date 0 0 0 23 30 0 0 New_York, times' := 2\<rparr>)
            = Inr (d, False,
                   (NewTask ())\<lparr>variant := weekly, days := Some [(0, True)],
                                   at := Date 0 0 0 23 30 0 0 New_York, times' := 1\<rparr>))
   \<and> (\<exists>d. next' (Time 5 UTC) 0
             ((NewTask ())\<lparr>variant := monthly, months := Some [(7, True)], on := 15, times' := 2\<rparr>)
            = Inr (d, True,
                   (NewTask ())\<lparr>variant := monthly, months := Some [(7, True)], on := 15, times' := 1\<rparr>))
   \<and> (\<exists>d. next' (Time 5 UTC) 0
             ((NewTask ())\<lparr>variant := monthly, months := Some [(7, False)], on := 15, times' := 2\<rparr>)
            = Inr (d, False,
                   (NewTask ())\<lparr>variant := monthly, months := Some [(7, False)], on := 15, times' := 1\<rparr>))"
proof -
  let ?z = "(NewTask ())\<lparr>times' := 0\<rparr>"
  let ?e = "(NewTask ())\<lparr>variant := every, duration := 7, times' := 3\<rparr>"
  let ?r = "(NewTask ())\<lparr>variant := random', randMin := - (2 ^ 63), randMax := 1\<rparr>"
  let ?w = "(NewTask ())\<lparr>variant := weekly, days := Some [(5, True)], at := Date 0 0 0 12 0 0 0 UTC,
                             times' := 2\<rparr>"
  let ?v = "(NewTask ())\<lparr>variant := weekly, days := Some [(0, True)],
                             at := Date 0 0 0 23 30 0 0 New_York, times' := 2\<rparr>"
  let ?m = "(NewTask ())\<lparr>variant := monthly, months := Some [(7, True)], on := 15, times' := 2\<rparr>"
  let ?n = "(NewTask ())\<lparr>variant := monthly, months := Some [(7, False)], on := 15, times' := 2\<rparr>"
  have rb: "int64 (randMax ?r - randMin ?r) \<le> 0" by (simp add: int64_def NewTask_def)
  have hw: "has_occurrence (Date 2024 3 15 10 0 0 0 UTC) ?w"
  proof -
    have "times' ?w \<noteq> 0" "variant ?w = weekly" by (simp_all add: NewTask_def)
    from next_weekly_fixed[OF this, of "Date 2024 3 15 10 0 0 0 UTC" 0]
    have "\<exists>d. next' (Date 2024 3 15 10 0 0 0 UTC) 0 ?w = Inr (d, True, decremented ?w)"
      using Weekday_Date_fixed[OF utc_fixed(1), of 10 0 0 2024 3 15]
      by (simp add: location_Date utc_fixed lookup_single civil_weekday_def days_of_def
          date_defs duration_defs)
    moreover have "\<exists>d. next' (Date 2024 3 15 10 0 0 0 UTC) 0 ?w
                      = Inr (d, has_occurrence (Date 2024 3 15 10 0 0 0 UTC) ?w, decremented ?w)"
      using next_times[of ?w "Date 2024 3 15 10 0 0 0 UTC" 0] by (simp add: NewTask_def)
    ultimately show ?thesis by auto
  qed
  have hv: "\<not> has_occurrence (Date 2024 3 3 23 30 0 0 New_York) ?v"
  proof -
    have "weekly_candidates (Date 2024 3 3 23 30 0 0 New_York) ?v
          = weekly_candidates (Date 2024 3 3 23 30 0 0 New_York)
              ((NewTask ())\<lparr>variant := weekly, days := Some [(0, True)],
                             at := Date 0 0 0 23 30 0 0 New_York\<rparr>)"
      by (simp add: weekly_candidates_def)
    moreover have "\<not> has_occurrence (Date 2024 3 3 23 30 0 0 New_York)
              ((NewTask ())\<lparr>variant := weekly, days := Some [(0, True)],
                             at := Date 0 0 0 23 30 0 0 New_York\<rparr>)"
    proof
      assume a: "has_occurrence (Date 2024 3 3 23 30 0 0 New_York)
              ((NewTask ())\<lparr>variant := weekly, days := Some [(0, True)],
                             at := Date 0 0 0 23 30 0 0 New_York\<rparr>)"
      have "\<exists>d. next' (Date 2024 3 3 23 30 0 0 New_York) 0
              ((NewTask ())\<lparr>variant := weekly, days := Some [(0, True)],
                             at := Date 0 0 0 23 30 0 0 New_York\<rparr>)
            = Inr (d, True, decremented ((NewTask ())\<lparr>variant := weekly, days := Some [(0, True)],
                             at := Date 0 0 0 23 30 0 0 New_York\<rparr>))"
        using next_times[of "(NewTask ())\<lparr>variant := weekly, days := Some [(0, True)],
                             at := Date 0 0 0 23 30 0 0 New_York\<rparr>" "Date 2024 3 3 23 30 0 0 New_York" 0] a
        by (simp add: NewTask_def)
      then show False using New_York_sunday by auto
    qed
    ultimately show ?thesis by (simp add: has_occurrence_def)
  qed
  have hm: "has_occurrence (Time 5 UTC) ?m"
    by (simp add: has_occurrence_def months_ex lookup_single) 
  have hn: "\<not> has_occurrence (Time 5 UTC) ?n"
    by (simp add: has_occurrence_def months_ex lookup_def)
  show ?thesis
    using next_times[of ?z "Time 5 UTC" 0] next_times[of ?e "Time 5 UTC" 0]
      next_times[of ?r "Time 5 UTC" 0] rb
      next_times[of ?w "Date 2024 3 15 10 0 0 0 UTC" 0] hw
      next_times[of ?v "Date 2024 3 3 23 30 0 0 New_York" 0] hv
      next_times[of ?m "Time 5 UTC" 0] hm next_times[of ?n "Time 5 UTC" 0] hn
    by (simp add: NewTask_def has_occurrence_def decremented_def)
qed

section \<open>The recurrence evaluator: monthly tasks\<close>

lemma Month_range: "1 \<le> Month now \<and> Month now \<le> 12"
  using civil_of_days[of "abs_ns now"] by (simp add: Month_def)

lemma month_succ_following:
  "month_succ (Year now, Month now) = following_month (Year now) (Month now)"
  using Month_range[of now] by (auto simp: month_succ_def following_month_def)

lemma next_monthly_all:
  assumes "times' t \<noteq> 0" "variant t = monthly" "0 < on t" "on t \<le> 31"
    and "\<forall>m \<in> {1..12}. lookup (months t) m"
    and "ym = (if Day now < on t \<or>
                  (Day now = on t \<and>
                   \<not> After now (Date (Year now) (Month now) (on t)
                                   (Hour (at t)) (Minute (at t)) (Second (at t)) 0 (location now)))
               then (Year now, Month now) else following_month (Year now) (Month now))"
  shows "next' now r t =
           Inr (Sub (Date (fst ym) (snd ym) (on t) (Hour (at t)) (Minute (at t)) (Second (at t)) 0
                       (location now)) now,
                True, decremented t)"
    and "1 \<le> snd ym \<and> snd ym \<le> 12"
proof -
  have "lookup (months t) 1" using assms(5) by simp
  then have mn: "months t \<noteq> None" by (cases "months t") (simp_all add: lookup_def)
  show r: "1 \<le> snd ym \<and> snd ym \<le> 12"
    unfolding assms(6) using Month_range[of now] by (auto simp: following_month_def)
  then have hit: "monthly_scan 12 (months t) (fst ym, snd ym) = Some (fst ym, snd ym)"
    using assms(5) by (intro monthly_scan_hit) simp
  have st: "(if Day now > on t \<or>
                (Day now = on t \<and>
                 After now (Date (Year now) (Month now) (on t)
                              (Hour (at t)) (Minute (at t)) (Second (at t)) 0 (location now)))
             then month_succ (Year now, Month now) else (Year now, Month now)) = (fst ym, snd ym)"
    unfolding assms(6) month_succ_following by auto
  show "next' now r t =
           Inr (Sub (Date (fst ym) (snd ym) (on t) (Hour (at t)) (Minute (at t)) (Second (at t)) 0
                       (location now)) now,
                True, decremented t)"
    unfolding next_monthly[OF assms(1,2)] st hit using mn assms(3,4)
    by (simp add: case_prod_beta)
qed

lemma fields_Date_fixed:
  assumes "fixed_zone l" "1 \<le> m" "m \<le> 12" "1 \<le> d" "d \<le> daysIn m y"
    "0 \<le> h" "h \<le> 23" "0 \<le> mi" "mi \<le> 59" "0 \<le> s" "s \<le> 59"
  shows "Year (Date y m d h mi s 0 l) = y" "Month (Date y m d h mi s 0 l) = m"
    "Day (Date y m d h mi s 0 l) = d"
  unfolding Year_def Month_def Day_def abs_ns_Date_fixed[OF assms(1)]
  using assms(2-11) by (simp_all add: civil_fields_of_date)

text \<open>
  C3, as amended. For a monthly task with \<open>times \<noteq> 0\<close>, a day \<open>on\<close> from 1 to 31 and a
  map of months that holds all twelve months, \<open>next\<close> always returns \<open>keep = true\<close>, and
  the delay leads to the instant that \<^verbatim>\<open>time.Date\<close> gives for day \<open>on\<close>, time \<open>at\<close>, of
  a target month in the location of \<open>now\<close>. The target is the current month if the day of
  the month of \<open>now\<close> is strictly less than \<open>on\<close>, or equal to \<open>on\<close> while \<open>now\<close> is not
  after today at \<open>at\<close>; otherwise it is the month that follows (January of the next year
  after December). In a location whose offset from UTC does not change, and when \<open>on\<close>
  does not exceed the length of the target month, that instant falls in the target month,
  on day \<open>on\<close> at \<open>at\<close>.
\<close>

theorem monthly_every_month:
  assumes "variant t = monthly" and "times' t \<noteq> 0" and "0 < on t" and "on t \<le> 31"
    and "\<forall>m \<in> {1..12}. lookup (months t) m"
    and "ym = (if Day now < on t \<or>
                  (Day now = on t \<and>
                   \<not> After now (Date (Year now) (Month now) (on t)
                                   (Hour (at t)) (Minute (at t)) (Second (at t)) 0 (location now)))
               then (Year now, Month now)
               else if Month now = 12 then (Year now + 1, 1) else (Year now, Month now + 1))"
    and "nextRun = Date (fst ym) (snd ym) (on t) (Hour (at t)) (Minute (at t)) (Second (at t)) 0
                     (location now)"
  shows "next' now r t = Inr (Sub nextRun now, True, decremented t)
       \<and> (fixed_zone (location now) \<and> on t \<le> daysIn (snd ym) (fst ym) \<longrightarrow>
            Year nextRun = fst ym \<and> Month nextRun = snd ym \<and> Day nextRun = on t
            \<and> ToD nextRun = clock (at t))"
proof -
  have ym: "ym = (if Day now < on t \<or>
                  (Day now = on t \<and>
                   \<not> After now (Date (Year now) (Month now) (on t)
                                   (Hour (at t)) (Minute (at t)) (Second (at t)) 0 (location now)))
               then (Year now, Month now) else following_month (Year now) (Month now))"
    unfolding assms(6) following_month_def by simp
  note n = next_monthly_all(1)[OF assms(2,1,3,4,5) ym, of r] next_monthly_all(2)[OF assms(2,1,3,4,5) ym]
  have c: "fixed_zone (location now) \<and> on t \<le> daysIn (snd ym) (fst ym) \<longrightarrow>
            Year nextRun = fst ym \<and> Month nextRun = snd ym \<and> Day nextRun = on t
            \<and> ToD nextRun = clock (at t)"
  proof
    assume a: "fixed_zone (location now) \<and> on t \<le> daysIn (snd ym) (fst ym)"
    have o1: "1 \<le> on t" using assms(3) by simp
    have cb: "0 \<le> Hour (at t) * hour_ns + Minute (at t) * minute_ns + Second (at t) * second_ns + 0"
      "Hour (at t) * hour_ns + Minute (at t) * minute_ns + Second (at t) * second_ns + 0 < day_ns"
      using clock_range[of "at t"] by (simp_all add: clock_def)
    have r: "1 \<le> snd ym" "snd ym \<le> 12" using n(2) by simp_all
    have le: "on t \<le> daysIn (snd ym) (fst ym)" using a by simp
    have ab: "abs_ns nextRun = civil_date (fst ym) (snd ym) (on t)
                (Hour (at t)) (Minute (at t)) (Second (at t)) 0"
      unfolding assms(7) using a by (simp add: abs_ns_Date_fixed)
    from civil_of_Date[OF r o1 le cb]
    show "Year nextRun = fst ym \<and> Month nextRun = snd ym \<and> Day nextRun = on t
            \<and> ToD nextRun = clock (at t)"
      unfolding Year_def Month_def Day_def ToD_def ab clock_def by simp
  qed
  from n(1) c show ?thesis unfolding assms(7) by blast
qed

lemma all_months:
  "\<forall>m \<in> {1..12}. lookup (Some [(1, True), (2, True), (3, True), (4, True), (5, True), (6, True),
      (7, True), (8, True), (9, True), (10, True), (11, True), (12, True)]) m"
proof
  fix m :: int assume "m \<in> {1..12}"
  then have "1 \<le> m" "m \<le> 12" by simp_all
  from month_cases[OF this] show "lookup (Some [(1, True), (2, True), (3, True), (4, True),
      (5, True), (6, True), (7, True), (8, True), (9, True), (10, True), (11, True), (12, True)]) m"
    by (elim disjE) (simp_all add: lookup_def)
qed

theorem monthly_every_month_witness:
  "fixed_zone UTC
   \<and> Day (Date 2024 3 10 10 0 0 0 UTC) < 15 \<and> 15 \<le> daysIn 3 2024
   \<and> next' (Date 2024 3 10 10 0 0 0 UTC) 0
        ((NewTask ())\<lparr>variant := monthly, months := Some [(1, True), (2, True), (3, True),
           (4, True), (5, True), (6, True), (7, True), (8, True), (9, True), (10, True),
           (11, True), (12, True)], on := 15, at := Date 0 0 0 12 0 0 0 UTC\<rparr>)
       = Inr (Sub (Date 2024 3 15 12 0 0 0 UTC) (Date 2024 3 10 10 0 0 0 UTC), True,
              (NewTask ())\<lparr>variant := monthly, months := Some [(1, True), (2, True), (3, True),
                (4, True), (5, True), (6, True), (7, True), (8, True), (9, True), (10, True),
                (11, True), (12, True)], on := 15, at := Date 0 0 0 12 0 0 0 UTC\<rparr>)
   \<and> Year (Date 2024 3 15 12 0 0 0 UTC) = 2024 \<and> Month (Date 2024 3 15 12 0 0 0 UTC) = 3
   \<and> Day (Date 2024 3 15 12 0 0 0 UTC) = 15
   \<and> 15 < Day (Date 2024 3 20 10 0 0 0 UTC) \<and> 15 \<le> daysIn 4 2024
   \<and> next' (Date 2024 3 20 10 0 0 0 UTC) 0
        ((NewTask ())\<lparr>variant := monthly, months := Some [(1, True), (2, True), (3, True),
           (4, True), (5, True), (6, True), (7, True), (8, True), (9, True), (10, True),
           (11, True), (12, True)], on := 15, at := Date 0 0 0 12 0 0 0 UTC\<rparr>)
       = Inr (Sub (Date 2024 4 15 12 0 0 0 UTC) (Date 2024 3 20 10 0 0 0 UTC), True,
              (NewTask ())\<lparr>variant := monthly, months := Some [(1, True), (2, True), (3, True),
                (4, True), (5, True), (6, True), (7, True), (8, True), (9, True), (10, True),
                (11, True), (12, True)], on := 15, at := Date 0 0 0 12 0 0 0 UTC\<rparr>)
   \<and> Year (Date 2024 4 15 12 0 0 0 UTC) = 2024 \<and> Month (Date 2024 4 15 12 0 0 0 UTC) = 4
   \<and> Day (Date 2024 4 15 12 0 0 0 UTC) = 15
   \<and> 15 < Day (Date 2024 12 20 10 0 0 0 UTC) \<and> 15 \<le> daysIn 1 2025
   \<and> next' (Date 2024 12 20 10 0 0 0 UTC) 0
        ((NewTask ())\<lparr>variant := monthly, months := Some [(1, True), (2, True), (3, True),
           (4, True), (5, True), (6, True), (7, True), (8, True), (9, True), (10, True),
           (11, True), (12, True)], on := 15, at := Date 0 0 0 12 0 0 0 UTC\<rparr>)
       = Inr (Sub (Date 2025 1 15 12 0 0 0 UTC) (Date 2024 12 20 10 0 0 0 UTC), True,
              (NewTask ())\<lparr>variant := monthly, months := Some [(1, True), (2, True), (3, True),
                (4, True), (5, True), (6, True), (7, True), (8, True), (9, True), (10, True),
                (11, True), (12, True)], on := 15, at := Date 0 0 0 12 0 0 0 UTC\<rparr>)
   \<and> Year (Date 2025 1 15 12 0 0 0 UTC) = 2025 \<and> Month (Date 2025 1 15 12 0 0 0 UTC) = 1
   \<and> Day (Date 2025 1 15 12 0 0 0 UTC) = 15"
proof -
  let ?t = "(NewTask ())\<lparr>variant := monthly, months := Some [(1, True), (2, True), (3, True),
       (4, True), (5, True), (6, True), (7, True), (8, True), (9, True), (10, True), (11, True),
       (12, True)], on := 15, at := Date 0 0 0 12 0 0 0 UTC\<rparr>"
  let ?a = "Date 2024 3 10 10 0 0 0 UTC"
  let ?b = "Date 2024 3 20 10 0 0 0 UTC"
  let ?c = "Date 2024 12 20 10 0 0 0 UTC"
  have h: "variant ?t = monthly" "times' ?t \<noteq> 0" "0 < on ?t" "on ?t \<le> 31"
    by (simp_all add: NewTask_def)
  have o: "on ?t = 15" by simp
  have m: "\<forall>m \<in> {1..12}. lookup (months ?t) m" using all_months by simp
  have d: "decremented ?t = ?t" by (simp add: decremented_def NewTask_def)
  have di: "daysIn 3 2024 = 31" "daysIn 4 2024 = 30" "daysIn 12 2024 = 31" "daysIn 1 2025 = 31"
    by (simp_all add: daysIn_def daysBefore_def)
  have fa: "Year ?a = 2024" "Month ?a = 3" "Day ?a = 10"
    and fb: "Year ?b = 2024" "Month ?b = 3" "Day ?b = 20"
    and fc: "Year ?c = 2024" "Month ?c = 12" "Day ?c = 20"
    by (simp_all add: fields_Date_fixed utc_fixed di)
  have lc: "location ?a = UTC" "location ?b = UTC" "location ?c = UTC"
    by (simp_all add: location_Date)
  have at: "Hour (at ?t) = 12" "Minute (at ?t) = 0" "Second (at ?t) = 0" by (simp_all add: noon_utc)
  have ya: "(2024, 3) = (if Day ?a < on ?t \<or>
                  (Day ?a = on ?t \<and>
                   \<not> After ?a (Date (Year ?a) (Month ?a) (on ?t)
                                   (Hour (at ?t)) (Minute (at ?t)) (Second (at ?t)) 0 (location ?a)))
               then (Year ?a, Month ?a)
               else if Month ?a = 12 then (Year ?a + 1, 1) else (Year ?a, Month ?a + 1))"
    unfolding fa o by simp
  have yb: "(2024, 4) = (if Day ?b < on ?t \<or>
                  (Day ?b = on ?t \<and>
                   \<not> After ?b (Date (Year ?b) (Month ?b) (on ?t)
                                   (Hour (at ?t)) (Minute (at ?t)) (Second (at ?t)) 0 (location ?b)))
               then (Year ?b, Month ?b)
               else if Month ?b = 12 then (Year ?b + 1, 1) else (Year ?b, Month ?b + 1))"
    unfolding fb o by simp
  have yc: "(2025, 1) = (if Day ?c < on ?t \<or>
                  (Day ?c = on ?t \<and>
                   \<not> After ?c (Date (Year ?c) (Month ?c) (on ?t)
                                   (Hour (at ?t)) (Minute (at ?t)) (Second (at ?t)) 0 (location ?c)))
               then (Year ?c, Month ?c)
               else if Month ?c = 12 then (Year ?c + 1, 1) else (Year ?c, Month ?c + 1))"
    unfolding fc o by simp
  have na: "Date 2024 3 15 12 0 0 0 UTC
      = Date (fst (2024, 3)) (snd (2024, 3)) (on ?t) (Hour (at ?t)) (Minute (at ?t)) (Second (at ?t)) 0
          (location ?a)"
    unfolding at o lc by simp
  have nb: "Date 2024 4 15 12 0 0 0 UTC
      = Date (fst (2024, 4)) (snd (2024, 4)) (on ?t) (Hour (at ?t)) (Minute (at ?t)) (Second (at ?t)) 0
          (location ?b)"
    unfolding at o lc by simp
  have nc: "Date 2025 1 15 12 0 0 0 UTC
      = Date (fst (2025, 1)) (snd (2025, 1)) (on ?t) (Hour (at ?t)) (Minute (at ?t)) (Second (at ?t)) 0
          (location ?c)"
    unfolding at o lc by simp
  have ra: "next' ?a 0 ?t = Inr (Sub (Date 2024 3 15 12 0 0 0 UTC) ?a, True, ?t)
            \<and> Year (Date 2024 3 15 12 0 0 0 UTC) = 2024 \<and> Month (Date 2024 3 15 12 0 0 0 UTC) = 3
            \<and> Day (Date 2024 3 15 12 0 0 0 UTC) = 15"
    using monthly_every_month[OF h m ya na, of 0] d di o lc by (simp add: utc_fixed)
  have rb: "next' ?b 0 ?t = Inr (Sub (Date 2024 4 15 12 0 0 0 UTC) ?b, True, ?t)
            \<and> Year (Date 2024 4 15 12 0 0 0 UTC) = 2024 \<and> Month (Date 2024 4 15 12 0 0 0 UTC) = 4
            \<and> Day (Date 2024 4 15 12 0 0 0 UTC) = 15"
    using monthly_every_month[OF h m yb nb, of 0] d di o lc by (simp add: utc_fixed)
  have rc: "next' ?c 0 ?t = Inr (Sub (Date 2025 1 15 12 0 0 0 UTC) ?c, True, ?t)
            \<and> Year (Date 2025 1 15 12 0 0 0 UTC) = 2025 \<and> Month (Date 2025 1 15 12 0 0 0 UTC) = 1
            \<and> Day (Date 2025 1 15 12 0 0 0 UTC) = 15"
    using monthly_every_month[OF h m yc nc, of 0] d di o lc by (simp add: utc_fixed)
  show ?thesis using ra rb rc fa fb fc di by (simp add: utc_fixed)
qed

lemma next_monthly_same_day:
  "\<not> Day (Date 2024 3 15 10 0 0 0 UTC) < 15
   \<and> next' (Date 2024 3 15 10 0 0 0 UTC) 0
        ((NewTask ())\<lparr>variant := monthly, months := Some [(1, True), (2, True), (3, True),
           (4, True), (5, True), (6, True), (7, True), (8, True), (9, True), (10, True),
           (11, True), (12, True)], on := 15, at := Date 0 0 0 12 0 0 0 UTC\<rparr>)
       = Inr (2 * hour_ns, True,
              (NewTask ())\<lparr>variant := monthly, months := Some [(1, True), (2, True), (3, True),
                (4, True), (5, True), (6, True), (7, True), (8, True), (9, True), (10, True),
                (11, True), (12, True)], on := 15, at := Date 0 0 0 12 0 0 0 UTC\<rparr>)
   \<and> Time_Add (Date 2024 3 15 10 0 0 0 UTC) (2 * hour_ns) = Date 2024 3 15 12 0 0 0 UTC
   \<and> Year (Date 2024 3 15 12 0 0 0 UTC) = Year (Date 2024 3 15 10 0 0 0 UTC)
   \<and> Month (Date 2024 3 15 12 0 0 0 UTC) = Month (Date 2024 3 15 10 0 0 0 UTC)"
proof -
  let ?t = "(NewTask ())\<lparr>variant := monthly, months := Some [(1, True), (2, True), (3, True),
       (4, True), (5, True), (6, True), (7, True), (8, True), (9, True), (10, True), (11, True),
       (12, True)], on := 15, at := Date 0 0 0 12 0 0 0 UTC\<rparr>"
  let ?now = "Date 2024 3 15 10 0 0 0 UTC"
  have h: "times' ?t \<noteq> 0" "variant ?t = monthly" "0 < on ?t" "on ?t \<le> 31"
    by (simp_all add: NewTask_def)
  have m: "\<forall>m \<in> {1..12}. lookup (months ?t) m" using all_months by simp
  have di: "daysIn 3 2024 = 31" by (simp add: daysIn_def daysBefore_def)
  have f: "Year ?now = 2024" "Month ?now = 3" "Day ?now = 15"
    by (simp_all add: fields_Date_fixed utc_fixed di)
  have g: "Year (Date 2024 3 15 12 0 0 0 UTC) = 2024" "Month (Date 2024 3 15 12 0 0 0 UTC) = 3"
    by (simp_all add: fields_Date_fixed utc_fixed di)
  have lc: "location ?now = UTC" by (rule location_Date)
  have e1: "?now = Time (civil_date 2024 3 15 10 0 0 0) UTC"
    and e2: "Date 2024 3 15 12 0 0 0 UTC = Time (civil_date 2024 3 15 12 0 0 0) UTC"
    unfolding Date_fixed[OF utc_fixed(1)] by (simp_all add: UTC_def)
  have p: "\<not> After ?now (Date 2024 3 15 12 0 0 0 UTC)"
    unfolding e1 e2 After_def by (simp add: date_defs duration_defs)
  have ym: "(2024, 3) = (if Day ?now < on ?t \<or>
                  (Day ?now = on ?t \<and>
                   \<not> After ?now (Date (Year ?now) (Month ?now) (on ?t)
                                   (Hour (at ?t)) (Minute (at ?t)) (Second (at ?t)) 0 (location ?now)))
               then (Year ?now, Month ?now) else following_month (Year ?now) (Month ?now))"
    using f p by (simp add: noon_utc lc)
  have d: "decremented ?t = ?t" by (simp add: decremented_def NewTask_def)
  have df: "Sub (Date 2024 3 15 12 0 0 0 UTC) ?now = 2 * hour_ns"
    unfolding e1 e2 Sub_def by (simp add: date_defs duration_defs minDuration_def maxDuration_def)
  have ad: "Time_Add ?now (2 * hour_ns) = Date 2024 3 15 12 0 0 0 UTC"
    unfolding e1 e2 Time_Add_def by (simp add: date_defs duration_defs)
  have n: "next' ?now 0 ?t = Inr (2 * hour_ns, True, ?t)"
    using next_monthly_all(1)[OF h m ym, of 0] d df by (simp add: noon_utc lc)
  show ?thesis using n f g ad by simp
qed

text \<open>
  On March 15 at 10:00, a task with \<open>on = 15\<close> and \<open>at\<close> = 12:00 is not scheduled in
  the next month, although the day of the month is not strictly less than \<open>on\<close>: it
  fires two hours later, the same day.
\<close>

theorem monthly_same_day_counterexample:
  "\<not> Day (Date 2024 3 15 10 0 0 0 UTC) < 15
   \<and> next' (Date 2024 3 15 10 0 0 0 UTC) 0
        ((NewTask ())\<lparr>variant := monthly, months := Some [(1, True), (2, True), (3, True),
           (4, True), (5, True), (6, True), (7, True), (8, True), (9, True), (10, True),
           (11, True), (12, True)], on := 15, at := Date 0 0 0 12 0 0 0 UTC\<rparr>)
       = Inr (2 * hour_ns, True,
              (NewTask ())\<lparr>variant := monthly, months := Some [(1, True), (2, True), (3, True),
                (4, True), (5, True), (6, True), (7, True), (8, True), (9, True), (10, True),
                (11, True), (12, True)], on := 15, at := Date 0 0 0 12 0 0 0 UTC\<rparr>)
   \<and> Time_Add (Date 2024 3 15 10 0 0 0 UTC) (2 * hour_ns) = Date 2024 3 15 12 0 0 0 UTC
   \<and> Year (Date 2024 3 15 12 0 0 0 UTC) = Year (Date 2024 3 15 10 0 0 0 UTC)
   \<and> Month (Date 2024 3 15 12 0 0 0 UTC) = Month (Date 2024 3 15 10 0 0 0 UTC)"
  by (rule next_monthly_same_day)

section \<open>A task left as \<open>NewTask\<close> makes it\<close>

lemma newtask_next:
  "next' now r ((NewTask j)\<lparr>id' := i, timer := tm\<rparr>) = Inr (0, True, (NewTask j)\<lparr>id' := i, timer := tm\<rparr>)"
  by (simp add: next'_def NewTask_def Sub_self)

lemma refire_round:
  assumes "tasks s i = Some ((NewTask j)\<lparr>id' := i, timer := Some (Timer q 0 i)\<rparr>)"
    and "Timer q 0 i \<in> set (armed s)" and "\<not> stopped s"
  shows "fire_timer now r (Timer q 0 i) s =
           Some (Inr (s\<lparr>armed := removeAll (Timer q 0 i) (armed s) @ [Timer (timerSeq s) 0 i],
                        timerSeq := timerSeq s + 1,
                        tasks := (tasks s)(i \<mapsto> (NewTask j)\<lparr>id' := i, timer := Some (Timer (timerSeq s) 0 i)\<rparr>),
                        spawned := spawned s @ [(NewTask j)\<lparr>id' := i, timer := Some (Timer (timerSeq s) 0 i)\<rparr>]\<rparr>))"
  using assms
  by (simp add: fire_timer_def taskCallbackGenerator_def runTask_def newtask_next AfterFunc_def Let_def)

lemma refire_loop:
  assumes "tasks s i = Some ((NewTask j)\<lparr>id' := i, timer := Some (Timer q 0 i)\<rparr>)"
    and "Timer q 0 i \<in> set (armed s)" and "\<not> stopped s" and "timerSeq s = q + 1"
  shows "\<exists>s'. refire fs i s = Some (Inr s')
              \<and> tasks s' i = Some ((NewTask j)\<lparr>id' := i, timer := Some (Timer (q + length fs) 0 i)\<rparr>)
              \<and> Timer (q + length fs) 0 i \<in> set (armed s')
              \<and> fires i s' = fires i s + length fs"
  using assms
proof (induction fs arbitrary: s q)
  case Nil
  then show ?case by simp
next
  case (Cons f fs)
  obtain now r where f: "f = (now, r)" by (cases f)
  let ?T = "(NewTask j)\<lparr>id' := i, timer := Some (Timer (timerSeq s) 0 i)\<rparr>"
  let ?s1 = "s\<lparr>armed := removeAll (Timer q 0 i) (armed s) @ [Timer (timerSeq s) 0 i],
               timerSeq := timerSeq s + 1,
               tasks := (tasks s)(i \<mapsto> ?T),
               spawned := spawned s @ [?T]\<rparr>"
  have ft: "fire_timer now r (Timer q 0 i) s = Some (Inr ?s1)"
    by (rule refire_round[OF Cons.prems(1,2,3)])
  have a: "tasks ?s1 i = Some ((NewTask j)\<lparr>id' := i, timer := Some (Timer (Suc q) 0 i)\<rparr>)"
    using Cons.prems(4) by simp
  have b: "Timer (Suc q) 0 i \<in> set (armed ?s1)" using Cons.prems(4) by simp
  have c: "\<not> stopped ?s1" using Cons.prems(3) by simp
  have d: "timerSeq ?s1 = Suc q + 1" using Cons.prems(4) by simp
  from Cons.IH[OF a b c d] obtain s' where
    s': "refire fs i ?s1 = Some (Inr s')"
        "tasks s' i = Some ((NewTask j)\<lparr>id' := i, timer := Some (Timer (Suc q + length fs) 0 i)\<rparr>)"
        "Timer (Suc q + length fs) 0 i \<in> set (armed s')"
        "fires i s' = fires i ?s1 + length fs" by blast
  have "fires i ?s1 = fires i s + 1" by (simp add: fires_def)
  then show ?case using s' ft f Cons.prems(1) by simp
qed

text \<open>
  C10. A task made by \<open>NewTask\<close> with no builder call after it has the variant
  \<open>once\<close> and \<open>times = -1\<close>, not 1. Whatever its id and the clock, \<open>next\<close> returns the
  delay 0 and \<open>keep = true\<close> and leaves the task as it is, so it does so at every later
  call. Admitted to a scheduler that has not been stopped, the task is armed with a timer
  of delay 0, and every fire of its timer arms a new timer of delay 0: any number of fires
  in a row takes place, each spawns a worker, and after them the task is still in the
  table, holding an armed timer of delay 0.
\<close>

theorem newtask_refires:
  "variant (NewTask j) = once \<and> times' (NewTask j) = - 1
   \<and> next' now r ((NewTask j)\<lparr>id' := i\<rparr>) = Inr (0, True, (NewTask j)\<lparr>id' := i\<rparr>)
   \<and> (\<not> stopped s \<longrightarrow>
        (\<exists>s0 s'. addTask now r s ((NewTask j)\<lparr>id' := i\<rparr>) = Inr s0
            \<and> refire fs i s0 = Some (Inr s')
            \<and> fires i s' = fires i s + length fs
            \<and> tasks s' i = Some ((NewTask j)\<lparr>id' := i,
                                   timer := Some (Timer (timerSeq s + length fs) 0 i)\<rparr>)
            \<and> Timer (timerSeq s + length fs) 0 i \<in> set (armed s')))"
proof -
  let ?t = "(NewTask j)\<lparr>id' := i\<rparr>"
  let ?T = "(NewTask j)\<lparr>id' := i, timer := Some (Timer (timerSeq s) 0 i)\<rparr>"
  let ?s0 = "s\<lparr>taskMus := (taskMus s)(i \<mapsto> Mutex),
               armed := armed s @ [Timer (timerSeq s) 0 i], timerSeq := timerSeq s + 1,
               tasks := (tasks s)(i \<mapsto> ?T)\<rparr>"
  have n: "next' now r ?t = Inr (0, True, ?t)" by (simp add: next'_def NewTask_def Sub_self)
  have a: "addTask now r s ?t = Inr ?s0"
    by (simp add: addTask_def n AfterFunc_def Let_def)
  have loop: "\<not> stopped s \<Longrightarrow>
        (\<exists>s0 s'. addTask now r s ?t = Inr s0
            \<and> refire fs i s0 = Some (Inr s')
            \<and> fires i s' = fires i s + length fs
            \<and> tasks s' i = Some ((NewTask j)\<lparr>id' := i,
                                   timer := Some (Timer (timerSeq s + length fs) 0 i)\<rparr>)
            \<and> Timer (timerSeq s + length fs) 0 i \<in> set (armed s'))"
  proof -
    assume ns: "\<not> stopped s"
    have p1: "tasks ?s0 i = Some ?T" by simp
    have p2: "Timer (timerSeq s) 0 i \<in> set (armed ?s0)" by simp
    have p3: "\<not> stopped ?s0" using ns by simp
    have p4: "timerSeq ?s0 = timerSeq s + 1" by simp
    from refire_loop[OF p1 p2 p3 p4, of fs] obtain s' where
      s': "refire fs i ?s0 = Some (Inr s')"
          "tasks s' i = Some ((NewTask j)\<lparr>id' := i, timer := Some (Timer (timerSeq s + length fs) 0 i)\<rparr>)"
          "Timer (timerSeq s + length fs) 0 i \<in> set (armed s')"
          "fires i s' = fires i ?s0 + length fs" by blast
    have "fires i ?s0 = fires i s" by (simp add: fires_def)
    then show ?thesis using a s' by simp
  qed
  show ?thesis using n loop by (simp add: NewTask_def)
qed

theorem newtask_refires_witness:
  "\<not> stopped (New :: unit Scheduler)
   \<and> (\<exists>s0 s'. addTask (Time 5 UTC) 0 New ((NewTask ())\<lparr>id' := 1\<rparr>) = Inr s0
          \<and> refire [(Time 6 UTC, 0), (Time 7 UTC, 0), (Time 8 UTC, 0)] 1 s0 = Some (Inr s')
          \<and> fires 1 s' = 3
          \<and> tasks s' 1 = Some ((NewTask ())\<lparr>id' := 1, timer := Some (Timer 3 0 1)\<rparr>)
          \<and> Timer 3 0 1 \<in> set (armed s'))"
proof -
  let ?fs = "[(Time 6 UTC, 0), (Time 7 UTC, 0), (Time 8 UTC, 0::int)]"
  have ns: "\<not> stopped (New :: unit Scheduler)" by (simp add: New_def)
  have z: "fires 1 (New :: unit Scheduler) + length ?fs = 3"
    "timerSeq (New :: unit Scheduler) + length ?fs = 3"
    by (simp_all add: New_def fires_def)
  from newtask_refires[of "()" "Time 5 UTC" 0 1 "New :: unit Scheduler" ?fs] ns
  obtain s0 s' where
    r: "addTask (Time 5 UTC) 0 New ((NewTask ())\<lparr>id' := 1\<rparr>) = Inr s0"
       "refire ?fs 1 s0 = Some (Inr s')"
       "fires 1 s' = fires 1 (New :: unit Scheduler) + length ?fs"
       "tasks s' 1 = Some ((NewTask ())\<lparr>id' := 1,
            timer := Some (Timer (timerSeq (New :: unit Scheduler) + length ?fs) 0 1)\<rparr>)"
       "Timer (timerSeq (New :: unit Scheduler) + length ?fs) 0 1 \<in> set (armed s')"
    by blast
  have "fires 1 s' = 3" "tasks s' 1 = Some ((NewTask ())\<lparr>id' := 1, timer := Some (Timer 3 0 1)\<rparr>)"
    "Timer 3 0 1 \<in> set (armed s')"
    using r(3,4,5) unfolding z by simp_all
  with r(1,2) ns show ?thesis by blast
qed

section \<open>The two tables of the scheduler\<close>

lemma next_keeps_id:
  assumes "next' now r t = Inr (d, k, t')"
  shows "id' t' = id' t"
  using next_result_task[OF assms] by (simp add: decremented_fields)

lemma delTask_tasks: "tasks (delTask s i) = (tasks s)(i := None)"
  by (auto simp add: delTask_def Timer_Stop_def Let_def split: option.splits)

lemma delTask_taskMus: "taskMus (delTask s i) = (taskMus s)(i := None)"
  by (simp add: delTask_def Timer_Stop_def Let_def split: option.splits)

lemma delTask_spawned: "spawned (delTask s i) = spawned s"
  by (simp add: delTask_def Timer_Stop_def Let_def split: option.splits)

lemma delTask_absent:
  assumes "tasks s i = None" and "taskMus s i = None"
  shows "delTask s i = s"
proof -
  have "(taskMus s)(i := None) = taskMus s" using assms(2) by (simp add: fun_upd_idem)
  then show ?thesis using assms(1) by (simp add: delTask_def)
qed

lemma delTask_twice: "delTask (delTask s i) i = delTask s i"
proof -
  have "tasks (delTask s i) i = None" by (simp add: delTask_tasks)
  moreover have "taskMus (delTask s i) i = None" by (simp add: delTask_taskMus)
  ultimately show ?thesis by (rule delTask_absent)
qed

lemma delTask_agree: "tables_agree s \<Longrightarrow> tables_agree (delTask s i)"
  by (simp add: tables_agree_def delTask_tasks delTask_taskMus)

lemma addTask_agree:
  assumes "tables_agree s" and "addTask now r s task = Inr s'"
  shows "tables_agree s'"
proof (cases "next' now r task")
  case (Inl e)
  then show ?thesis using assms(2) by (simp add: addTask_def)
next
  case (Inr p)
  then obtain d k t1 where p: "next' now r task = Inr (d, k, t1)" by (cases p) auto
  have i: "id' t1 = id' task" by (rule next_keeps_id[OF p])
  show ?thesis
  proof (cases k)
    case True
    then have "tasks s' = (tasks s)(id' task \<mapsto> t1\<lparr>timer := Some (Timer (timerSeq s) d (id' task))\<rparr>)"
      and "taskMus s' = (taskMus s)(id' task \<mapsto> Mutex)"
      using assms(2) p i by (auto simp add: addTask_def AfterFunc_def Let_def)
    then show ?thesis using assms(1) by (simp add: tables_agree_def)
  next
    case False
    then have "s' = delTask (s\<lparr>tasks := (tasks s)(id' task \<mapsto> task),
                               taskMus := (taskMus s)(id' task \<mapsto> Mutex)\<rparr>) (id' task)"
      using assms(2) p i by (simp add: addTask_def Let_def)
    then show ?thesis using assms(1)
      by (simp add: tables_agree_def delTask_tasks delTask_taskMus)
  qed
qed

lemma runTask_agree:
  assumes "tables_agree s" and "runTask now r s i = Inr s'"
  shows "tables_agree s'"
proof (cases "tasks s i")
  case None
  then show ?thesis using assms by (simp add: runTask_def)
next
  case (Some task)
  show ?thesis
  proof (cases "next' now r task")
    case (Inl e)
    then show ?thesis using assms(2) Some by (simp add: runTask_def)
  next
    case (Inr p)
    then obtain d k t1 where p: "next' now r task = Inr (d, k, t1)" by (cases p) auto
    show ?thesis
    proof (cases k)
      case True
      then have "tasks s' = (tasks s)(i \<mapsto> t1\<lparr>timer := Some (Timer (timerSeq s) d i)\<rparr>)"
        and "taskMus s' = taskMus s"
        using assms(2) Some p by (auto simp add: runTask_def AfterFunc_def Let_def)
      moreover have "taskMus s i \<noteq> None"
      proof -
        have "(tasks s i = None) = (taskMus s i = None)"
          using assms(1) unfolding tables_agree_def by (rule spec)
        then show ?thesis using Some by simp
      qed
      ultimately show ?thesis using assms(1) by (simp add: tables_agree_def)
    next
      case False
      then have "tasks s' = tasks (delTask s (id' t1))" and "taskMus s' = taskMus (delTask s (id' t1))"
        using assms(2) Some p by (auto simp add: runTask_def Let_def)
      then show ?thesis using delTask_agree[OF assms(1), of "id' t1"]
        by (simp add: tables_agree_def)
    qed
  qed
qed

lemma Stop_agree:
  assumes "Stop s = Inr s'"
  shows "tables_agree s'"
proof -
  have "tasks s' = Map.empty \<and> taskMus s' = Map.empty"
    using assms by (auto simp add: Stop_def Let_def split: if_splits)
  then show ?thesis by (simp add: tables_agree_def)
qed

lemma Run_agree:
  "tables_agree s \<Longrightarrow> Run s es = Inr s' \<Longrightarrow> tables_agree s'"
proof (induction s es rule: Run.induct)
  case (1 s)
  then show ?case by simp
next
  case (2 s es)
  then show ?case by (simp add: Stop_agree)
next
  case (3 s es)
  then show ?case by simp
next
  case (4 s i now r es)
  then show ?case by (auto split: sum.splits dest: runTask_agree)
next
  case (5 s task now r es)
  then show ?case by (auto split: sum.splits dest: addTask_agree)
next
  case (6 s i es)
  then show ?case by (simp add: delTask_agree)
qed

lemma fire_timer_agree:
  assumes "tables_agree s" and "fire_timer now r tm s = Some (Inr s')"
  shows "tables_agree s'"
proof -
  let ?s1 = "s\<lparr>armed := removeAll tm (armed s)\<rparr>"
  have a: "tables_agree ?s1" using assms(1) by (simp add: tables_agree_def)
  have "s' = ?s1 \<or> Run ?s1 [RunCh (target tm) now r] = Inr s'"
    using assms(2)
    by (auto simp add: fire_timer_def taskCallbackGenerator_def Let_def split: if_splits)
  then show ?thesis
  proof
    assume "s' = ?s1"
    then show ?thesis using a by simp
  next
    assume "Run ?s1 [RunCh (target tm) now r] = Inr s'"
    then show ?thesis by (rule Run_agree[OF a])
  qed
qed

lemma reachable_agree: "reachable s \<Longrightarrow> tables_agree s"
proof (induction rule: reachable.induct)
  case init
  then show ?case by (simp add: tables_agree_def New_def)
next
  case (add s task i s' task')
  then show ?case by (auto simp add: Add_def Let_def tables_agree_def split: if_splits)
next
  case (run s es s')
  then show ?case by (simp add: Run_agree)
next
  case (fire s now r tm s')
  then show ?case by (simp add: fire_timer_agree)
next
  case (stop s s')
  then show ?case by (simp add: Stop_agree)
qed

text \<open>
  C8. Deletion is idempotent. In every state of a scheduler made by \<open>New\<close> and used
  through its interface, the dispatch loop handling a deletion of an id that is absent
  from the task table leaves the scheduler as it is: the task table, the table of the
  per-task mutexes, and every other component. And in every state whatsoever, handling
  two deletions of the same id in a row gives the state that handling one gives.
\<close>

theorem delete_idempotent:
  "(reachable s \<longrightarrow> tasks s i = None \<longrightarrow>
      Run s [DelCh i] = Inr s \<and> tasks (delTask s i) = tasks s \<and> taskMus (delTask s i) = taskMus s)
   \<and> delTask (delTask s i) i = delTask s i
   \<and> Run s [DelCh i, DelCh i] = Run s [DelCh i]"
proof -
  have "delTask s i = s" if "reachable s" and "tasks s i = None"
  proof -
    have "taskMus s i = None" using reachable_agree[OF that(1)] that(2)
      by (simp add: tables_agree_def)
    then show ?thesis using that(2) by (rule delTask_absent[rotated])
  qed
  then show ?thesis by (simp add: delTask_twice)
qed

theorem delete_idempotent_witness:
  "\<exists>s1. Run New [AddCh ((NewTask ())\<lparr>id' := 1\<rparr>) (Time 5 UTC) 0] = Inr s1
      \<and> reachable s1 \<and> tasks s1 1 \<noteq> None \<and> taskMus s1 1 \<noteq> None \<and> tasks s1 2 = None
      \<and> Run s1 [DelCh 2] = Inr s1
      \<and> tasks (delTask s1 2) = tasks s1 \<and> taskMus (delTask s1 2) = taskMus s1
      \<and> tasks (delTask s1 1) 1 = None \<and> taskMus (delTask s1 1) 1 = None
      \<and> delTask (delTask s1 1) 1 = delTask s1 1
      \<and> Run s1 [DelCh 1, DelCh 1] = Run s1 [DelCh 1]"
proof -
  let ?t = "(NewTask ())\<lparr>id' := 1, timer := Some (Timer 0 0 1)\<rparr>"
  let ?s1 = "New\<lparr>tasks := [1 \<mapsto> ?t], taskMus := [1 \<mapsto> Mutex],
                   armed := [Timer 0 0 1], timerSeq := 1\<rparr> :: unit Scheduler"
  have n: "next' (Time 5 UTC) 0 ((NewTask ())\<lparr>id' := 1\<rparr>) = Inr (0, True, (NewTask ())\<lparr>id' := 1\<rparr>)"
    by (simp add: next'_def NewTask_def Sub_self)
  have r: "Run New [AddCh ((NewTask ())\<lparr>id' := 1\<rparr>) (Time 5 UTC) 0] = Inr ?s1"
    by (simp add: addTask_def n AfterFunc_def Let_def New_def)
  have re: "reachable ?s1" by (rule reachable.run[OF reachable.init r])
  have a: "tasks ?s1 2 = None" "tasks ?s1 1 \<noteq> None" "taskMus ?s1 1 \<noteq> None" by simp_all
  have d: "tasks (delTask ?s1 1) 1 = None" "taskMus (delTask ?s1 1) 1 = None"
    by (simp_all add: delTask_tasks delTask_taskMus)
  from delete_idempotent[of ?s1 2] re a(1)
  have "Run ?s1 [DelCh 2] = Inr ?s1" "tasks (delTask ?s1 2) = tasks ?s1"
    "taskMus (delTask ?s1 2) = taskMus ?s1" by blast+
  moreover from delete_idempotent[of ?s1 1]
  have "delTask (delTask ?s1 1) 1 = delTask ?s1 1" "Run ?s1 [DelCh 1, DelCh 1] = Run ?s1 [DelCh 1]"
    by blast+
  ultimately show ?thesis using r re a d by blast
qed

section \<open>The worker of a task without a mutex\<close>

lemma taskRunner_nil:
  assumes "blocking task = blocking'" and "taskMus s (id' task) = None"
  shows "taskRunner s task
           = Inl (Panic ''runtime error: invalid memory address or nil pointer dereference'')"
  using assms by (simp add: taskRunner_def)

lemma runTask_dispose:
  assumes "tasks s i = Some task" and "id' task = i" and "times' task = 0"
  shows "runTask now r s i = Inr ((delTask s i)\<lparr>spawned := spawned s @ [task]\<rparr>)"
  using assms by (simp add: runTask_def next_zero Let_def delTask_spawned)

text \<open>
  C1. The worker of a task in the mode \<open>Blocking\<close> whose id has no entry in the table of
  the per-task mutexes does not return quietly: it ends in the panic of a nil pointer
  dereference, and the job is not run. This is no matter of a rare interleaving: the fire
  that finds the counter of a task at 0 deletes the task, and with it its mutex, and spawns
  the worker after that, so that the last worker of a task in the mode \<open>Blocking\<close>
  with a bounded number of runs always panics.
\<close>

theorem missing_mutex_panics:
  "(blocking task = blocking' \<longrightarrow> taskMus s (id' task) = None \<longrightarrow>
      taskRunner s task
        = Inl (Panic ''runtime error: invalid memory address or nil pointer dereference''))
   \<and> (tasks s i = Some task \<longrightarrow> id' task = i \<longrightarrow> blocking task = blocking' \<longrightarrow> times' task = 0 \<longrightarrow>
        (\<exists>s'. runTask now r s i = Inr s' \<and> spawned s' = spawned s @ [task]
              \<and> tasks s' i = None \<and> taskMus s' i = None
              \<and> taskRunner s' task
                  = Inl (Panic ''runtime error: invalid memory address or nil pointer dereference'')))"
proof -
  have "\<exists>s'. runTask now r s i = Inr s' \<and> spawned s' = spawned s @ [task]
              \<and> tasks s' i = None \<and> taskMus s' i = None
              \<and> taskRunner s' task
                  = Inl (Panic ''runtime error: invalid memory address or nil pointer dereference'')"
    if h: "tasks s i = Some task" "id' task = i" "blocking task = blocking'" "times' task = 0"
  proof -
    let ?s' = "(delTask s i)\<lparr>spawned := spawned s @ [task]\<rparr>"
    have m: "taskMus ?s' (id' task) = None" "tasks ?s' i = None"
      using h(2) by (simp_all add: delTask_taskMus delTask_tasks)
    have "taskRunner ?s' task
            = Inl (Panic ''runtime error: invalid memory address or nil pointer dereference'')"
      by (rule taskRunner_nil[OF h(3) m(1)])
    then show ?thesis using runTask_dispose[OF h(1,2,4)] m h(2) by simp
  qed
  then show ?thesis using taskRunner_nil by blast
qed

text \<open>
  A task made by \<^verbatim>\<open>NewTask(job).Every(50).Times(1).Blocking()\<close> is added to a new
  scheduler and admitted by the dispatch loop; its timer fires once, and the worker spawned
  by that fire panics.
\<close>

theorem missing_mutex_panics_witness:
  "\<exists>e t1 t s0 s1 s2 w.
      Every 50 (NewTask ()) = Inr e \<and> Times 1 e = Inr t1
      \<and> Add New (Blocking t1) = Inr (1, s0, t)
      \<and> Run s0 [AddCh t (Time 5 UTC) 0] = Inr s1
      \<and> tasks s1 1 = Some w \<and> id' w = 1 \<and> blocking w = blocking' \<and> times' w = 0
      \<and> timer w = Some (Timer 0 50 1)
      \<and> fire_timer (Time 55 UTC) 0 (Timer 0 50 1) s1 = Some (Inr s2)
      \<and> spawned s2 = [w] \<and> tasks s2 1 = None \<and> taskMus s2 (id' w) = None
      \<and> taskRunner s2 w
          = Inl (Panic ''runtime error: invalid memory address or nil pointer dereference'')"
proof -
  let ?e = "(NewTask ())\<lparr>variant := every, duration := 50\<rparr>"
  let ?t1 = "?e\<lparr>times' := 1\<rparr>"
  let ?t = "?t1\<lparr>blocking := blocking', id' := 1\<rparr>"
  let ?w = "?t\<lparr>times' := 0, timer := Some (Timer 0 50 1)\<rparr>"
  let ?s0 = "New\<lparr>nextID := 1\<rparr> :: unit Scheduler"
  let ?s1 = "?s0\<lparr>tasks := [1 \<mapsto> ?w], taskMus := [1 \<mapsto> Mutex],
                   armed := [Timer 0 50 1], timerSeq := 1\<rparr>"
  let ?s1' = "?s1\<lparr>armed := []\<rparr>"
  have b: "Every 50 (NewTask ()) = Inr ?e" "Times 1 ?e = Inr ?t1"
    by (simp_all add: Every_def Times_def)
  have a: "Add New (Blocking ?t1) = Inr (1, ?s0, ?t)"
    by (simp add: Add_def Blocking_def New_def Let_def)
  have n: "next' (Time 5 UTC) 0 ?t = Inr (50, True, ?t\<lparr>times' := 0\<rparr>)"
    by (simp add: next'_def NewTask_def Let_def Sub_def Time_Add_def minDuration_def maxDuration_def)
  have r: "Run ?s0 [AddCh ?t (Time 5 UTC) 0] = Inr ?s1"
    unfolding Run.simps addTask_def n by (simp add: AfterFunc_def Let_def New_def NewTask_def)
  have w: "tasks ?s1 1 = Some ?w" "id' ?w = 1" "blocking ?w = blocking'" "times' ?w = 0"
    "timer ?w = Some (Timer 0 50 1)" "tasks ?s1' 1 = Some ?w" "spawned ?s1' = []"
    by (simp_all add: New_def)
  from missing_mutex_panics[of ?w ?s1' 1 "Time 55 UTC" 0] w(6,2,3,4)
  obtain s2 where s2: "runTask (Time 55 UTC) 0 ?s1' 1 = Inr s2" "spawned s2 = spawned ?s1' @ [?w]"
    "tasks s2 1 = None" "taskMus s2 1 = None"
    "taskRunner s2 ?w = Inl (Panic ''runtime error: invalid memory address or nil pointer dereference'')"
    by blast
  have f: "fire_timer (Time 55 UTC) 0 (Timer 0 50 1) ?s1 = Some (Inr s2)"
    using s2(1) by (simp add: fire_timer_def taskCallbackGenerator_def Let_def New_def)
  have "spawned s2 = [?w]" "taskMus s2 (id' ?w) = None" using s2(2,4) w(7) by simp_all
  with b a r w(1-5) f s2(3,5) show ?thesis by blast
qed
end
